theory Spec2Isabelle
  imports Main "HOL-Library.Word"
begin

section \<open>The per-document indexing pipeline of \<^verbatim>\<open>src/indexer/indexer.c\<close>\<close>

text \<open>
  The file under verification keeps two counters (\<^verbatim>\<open>prev_docID\<close>, \<^verbatim>\<open>cur_position\<close>) and
  five store handles in file-level statics and drives external components: the term index,
  the math index, the key-value store of offsets, two blob indices, the TeX parser, the text
  segmenter, the compressor, the JSON library and the lexer. None of the external components
  is part of the file. The embedding therefore has two parts:
  \<^item> the statics and the stores form one explicit state that every function takes and
    returns; each store is the list of the calls made on its handle, oldest first. The
    calls that are handed the subpaths of a parse result (the add to the math index and the
    release) are kept in one list of their own as well, since their order matters;
  \<^item> whatever an external component answers is a field of the record \<open>extern\<close>, which
    every function takes as its first argument. An answer that may depend on the history
    of a store takes the store's call list.
  \<^verbatim>\<open>DEBUG_INDEXER\<close> is taken to be undefined, so the debug \<^verbatim>\<open>printf\<close>s are not part of the
  model. \<^verbatim>\<open>assert\<close> is active (the file undefines \<^verbatim>\<open>NDEBUG\<close> before including
  \<^verbatim>\<open>assert.h\<close>): a failed assertion and \<^verbatim>\<open>exit\<close> end the run and are the \<open>Inl\<close> results.
\<close>

subsection \<open>Scalar types\<close>

text \<open>
  Modelled from the spec: the types \<^verbatim>\<open>doc_id_t\<close> and \<^verbatim>\<open>position_t\<close>, whose declarations are in
  a header that is not under \<^verbatim>\<open>src/\<close>. The spec has the docID as an unsigned integer of 32
  or 64 bits and the position as an unsigned integer of 32 bits; the code prints both with
  \<^verbatim>\<open>%u\<close> (lines 69-70), which fits 32 bits only. Both are unsigned 32-bit integers here, so
  \<^verbatim>\<open>prev_docID + 1\<close> and \<^verbatim>\<open>cur_position ++\<close> wrap around.
  \<^verbatim>\<open>size_t\<close> values are string lengths and are natural numbers; passing one to a
  \<^verbatim>\<open>uint32_t\<close> parameter truncates it (\<open>of_nat\<close>). The fields of \<^verbatim>\<open>struct lex_slice\<close>,
  \<^verbatim>\<open>struct text_seg\<close>, \<^verbatim>\<open>struct tex_parse_ret\<close> and the two offset map structs are declared
  outside \<^verbatim>\<open>src/\<close> as well; they are the fields that the code reads and writes.
\<close>

type_synonym uint32_t = "32 word"
type_synonym doc_id_t = "32 word"
type_synonym position_t = "32 word"
type_synonym size_t = nat

definition NL :: char where
  "NL = CHR 0x0A"

definition CR :: char where
  "CR = CHR 0x0D"

definition NUL :: char where
  "NUL = CHR 0x00"

definition c_str :: "string \<Rightarrow> string" where
  \<comment> \<open>the C string held by a buffer: the bytes before the first NUL\<close>
  "c_str buf = takeWhile (\<lambda>c. c \<noteq> NUL) buf"

definition strlen :: "string \<Rightarrow> size_t" where
  "strlen str = length (c_str str)"

subsection \<open>Data of the interfaces\<close>

record offsetmap_from_t =
  docID :: doc_id_t
  pos :: position_t

record offsetmap_to_t =
  offset :: uint32_t
  n_bytes :: uint32_t

datatype lex_slice_type =
    LEX_SLICE_TYPE_MATH
  | LEX_SLICE_TYPE_TEXT
  | LEX_SLICE_TYPE_ENG_TEXT
  | LEX_SLICE_TYPE_OTHER  \<comment> \<open>any value that reaches the \<^verbatim>\<open>default\<close> branch\<close>

record lex_slice =
  mb_str :: string
  sl_offset :: uint32_t  \<comment> \<open>\<^verbatim>\<open>slice->offset\<close>\<close>
  sl_type :: lex_slice_type  \<comment> \<open>\<^verbatim>\<open>slice->type\<close>\<close>

record text_seg =
  seg_str :: string  \<comment> \<open>\<^verbatim>\<open>seg->str\<close>\<close>
  seg_offset :: uint32_t  \<comment> \<open>\<^verbatim>\<open>seg->offset\<close>\<close>
  seg_n_bytes :: size_t  \<comment> \<open>\<^verbatim>\<open>seg->n_bytes\<close>\<close>

datatype parser_retcode = PARSER_RETCODE_SUCC | PARSER_RETCODE_ERR

record 'sp tex_parse_ret =
  code :: parser_retcode
  subpaths :: 'sp
  msg :: string

datatype yajl_type = yajl_t_string | yajl_t_number | yajl_t_object | yajl_t_array
  | yajl_t_true | yajl_t_false | yajl_t_null | yajl_t_any

datatype yajl_val =
    Yajl_string string
  | Yajl_number string
  | Yajl_object "(string \<times> yajl_val) list"
  | Yajl_array "yajl_val list"
  | Yajl_true
  | Yajl_false
  | Yajl_null

subsection \<open>The stores as call lists\<close>

datatype ti_call =
    Ti_doc_begin  \<comment> \<open>\<^verbatim>\<open>term_index_doc_begin\<close>\<close>
  | Ti_doc_add string  \<comment> \<open>\<^verbatim>\<open>term_index_doc_add\<close> with the term\<close>
  | Ti_doc_end doc_id_t  \<comment> \<open>\<^verbatim>\<open>term_index_doc_end\<close> with the docID it returned\<close>
  | Ti_maintain bool  \<comment> \<open>\<^verbatim>\<open>term_index_maintain\<close> with what it returned\<close>

datatype kv_call =
    Kv_put offsetmap_from_t offsetmap_to_t bool
    \<comment> \<open>\<^verbatim>\<open>keyval_db_put\<close>; the flag is its result, \<open>True\<close> for non-zero (error)\<close>
  | Kv_flush  \<comment> \<open>\<^verbatim>\<open>keyval_db_flush\<close>\<close>

datatype blob_index_t = Blob_index_url | Blob_index_txt

datatype 'sp subpaths_call =
    Sp_math_index_add_tex doc_id_t position_t 'sp int
    \<comment> \<open>\<^verbatim>\<open>math_index_add_tex\<close> with the docID, the position, the subpaths it is handed and
        what it returned\<close>
  | Sp_release 'sp  \<comment> \<open>\<^verbatim>\<open>subpaths_release\<close> with the subpaths it frees\<close>

datatype fatal =
    Assert_failed  \<comment> \<open>\<^verbatim>\<open>assert\<close> aborts the process\<close>
  | Exit_failure  \<comment> \<open>\<^verbatim>\<open>exit(EXIT_FAILURE)\<close>\<close>

record 'sp indexer =
  term_index :: "ti_call list"
  math_index :: "(doc_id_t \<times> position_t \<times> 'sp) list"
    \<comment> \<open>the calls of \<^verbatim>\<open>math_index_add_tex\<close>: docID, position, subpaths\<close>
  offset_db :: "kv_call list"
  blob_index_url :: "(doc_id_t \<times> string) list"
  blob_index_txt :: "(doc_id_t \<times> string) list"
    \<comment> \<open>the calls of \<^verbatim>\<open>blob_index_write\<close> on each handle: docID, bytes\<close>
  prev_docID :: doc_id_t
  cur_position :: position_t
  released :: "'sp list"  \<comment> \<open>the calls of \<^verbatim>\<open>subpaths_release\<close>\<close>
  subpaths_calls :: "'sp subpaths_call list"
    \<comment> \<open>the calls that are handed the subpaths of a parse result, in the order in which
        they are made\<close>
  doc_json :: string
  url_field :: string
  txt_field :: string
    \<comment> \<open>the three \<^verbatim>\<open>static char\<close> buffers of \<^verbatim>\<open>indexer_index_json\<close>\<close>
  stdout :: string
  stderr :: string

subsection \<open>The external components\<close>

record 'sp extern =
  MAX_CORPUS_FILE_SZ :: nat  \<comment> \<open>from \<^verbatim>\<open>config.h\<close>, which is not under \<^verbatim>\<open>src/\<close>\<close>
  tex_parse :: "string \<Rightarrow> nat \<Rightarrow> bool \<Rightarrow> 'sp tex_parse_ret"
  math_index_add_tex ::
    "(doc_id_t \<times> position_t \<times> 'sp) list \<Rightarrow> doc_id_t \<Rightarrow> position_t \<Rightarrow> 'sp \<Rightarrow> int"
    \<comment> \<open>what the call returns; the code does not look at it\<close>
  strip_math_tag :: "string \<Rightarrow> size_t \<Rightarrow> string"
  eng_to_lower_case :: "string \<Rightarrow> size_t \<Rightarrow> string"
    \<comment> \<open>both rewrite the string in place; the result is the string afterwards\<close>
  text_segment :: "string \<Rightarrow> text_seg list"
  codec_compress :: "string \<Rightarrow> size_t \<Rightarrow> string"  \<comment> \<open>with the \<^verbatim>\<open>CODEC_GZ\<close> codec\<close>
  keyval_db_put :: "kv_call list \<Rightarrow> offsetmap_from_t \<Rightarrow> offsetmap_to_t \<Rightarrow> bool"
    \<comment> \<open>\<open>True\<close> when the call returns non-zero\<close>
  keyval_db_last_err :: "kv_call list \<Rightarrow> string"
  term_index_doc_end :: "ti_call list \<Rightarrow> doc_id_t"
  term_index_maintain :: "ti_call list \<Rightarrow> bool"
  yajl_tree_parse :: "string \<Rightarrow> string + yajl_val"
    \<comment> \<open>\<open>Inl\<close> is the NULL result, with the text left in \<^verbatim>\<open>err_str\<close>\<close>
  fmemopen :: "string \<Rightarrow> size_t \<Rightarrow> bool"  \<comment> \<open>whether the handle is not NULL\<close>

text \<open>
  The lexer is the function pointer \<^verbatim>\<open>lex\<close>. Its contract is to call
  \<^verbatim>\<open>indexer_handle_slice\<close> once for each slice of the text, from left to right, before it
  returns; it is given by the slices it finds.
\<close>

type_synonym text_lexer = "string \<Rightarrow> lex_slice list"

subsection \<open>Library functions with a fixed meaning\<close>

fun assoc_get :: "(string \<times> yajl_val) list \<Rightarrow> string \<Rightarrow> yajl_val option" where
  \<comment> \<open>the value of the first key equal to the path element\<close>
  "assoc_get [] k = None"
| "assoc_get ((k', v) # kvs) k = (if k' = k then Some v else assoc_get kvs k)"

fun yajl_typeof :: "yajl_val \<Rightarrow> yajl_type" where
  "yajl_typeof (Yajl_string v) = yajl_t_string"
| "yajl_typeof (Yajl_number v) = yajl_t_number"
| "yajl_typeof (Yajl_object kvs) = yajl_t_object"
| "yajl_typeof (Yajl_array vs) = yajl_t_array"
| "yajl_typeof Yajl_true = yajl_t_true"
| "yajl_typeof Yajl_false = yajl_t_false"
| "yajl_typeof Yajl_null = yajl_t_null"

fun yajl_tree_get :: "yajl_val \<Rightarrow> string list \<Rightarrow> yajl_type \<Rightarrow> yajl_val option" where
  \<comment> \<open>yajl's lookup: follow the path through objects, then check the type of the node\<close>
  "yajl_tree_get n [] ty =
     (if ty \<noteq> yajl_t_any \<and> ty \<noteq> yajl_typeof n then None else Some n)"
| "yajl_tree_get (Yajl_object kvs) (k # path) ty =
     (case assoc_get kvs k of None \<Rightarrow> None | Some v \<Rightarrow> yajl_tree_get v path ty)"
| "yajl_tree_get n (k # path) ty = None"

fun YAJL_GET_STRING :: "yajl_val \<Rightarrow> string" where
  \<comment> \<open>only used on a node of type \<^verbatim>\<open>yajl_t_string\<close>; the macro is NULL on any other\<close>
  "YAJL_GET_STRING (Yajl_string v) = v"
| "YAJL_GET_STRING n = []"

definition fread :: "string \<Rightarrow> size_t \<Rightarrow> string \<Rightarrow> size_t \<times> string" where
  \<comment> \<open>\<^verbatim>\<open>fread(buf, 1, n, fh)\<close> on a stream holding \<open>fh\<close>: the number of bytes read and the
      buffer afterwards; the bytes of the buffer beyond those read are left as they were\<close>
  "fread buf n fh = (let got = take n fh in (length got, got @ drop (length got) buf))"

subsection \<open>The functions of \<^verbatim>\<open>indexer.c\<close>\<close>

definition blob_index_write ::
  "blob_index_t \<Rightarrow> doc_id_t \<Rightarrow> string \<Rightarrow> 'sp indexer \<Rightarrow> 'sp indexer" where
  "blob_index_write bi d bytes s =
     (case bi of
        Blob_index_url \<Rightarrow> s\<lparr>blob_index_url := blob_index_url s @ [(d, bytes)]\<rparr>
      | Blob_index_txt \<Rightarrow> s\<lparr>blob_index_txt := blob_index_txt s @ [(d, bytes)]\<rparr>)"

definition index_blob ::
  "'sp extern \<Rightarrow> blob_index_t \<Rightarrow> string \<Rightarrow> size_t \<Rightarrow> bool \<Rightarrow> 'sp indexer \<Rightarrow> 'sp indexer" where
  "index_blob E bi str str_sz compress s =
     (if compress
      then blob_index_write bi (prev_docID s + 1) (codec_compress E str str_sz) s
      else blob_index_write bi (prev_docID s + 1) (take str_sz str) s)"

definition save_offset ::
  "'sp extern \<Rightarrow> uint32_t \<Rightarrow> uint32_t \<Rightarrow> 'sp indexer \<Rightarrow> bool \<times> 'sp indexer" where
  "save_offset E ofs n s =
     (let from = \<lparr>docID = prev_docID s + 1, pos = cur_position s\<rparr>;
          to = \<lparr>offset = ofs, n_bytes = n\<rparr>;
          failed = keyval_db_put E (offset_db s) from to;
          s1 = s\<lparr>offset_db := offset_db s @ [Kv_put from to failed]\<rparr>
      in if failed
         then (True, s1\<lparr>stdout := stdout s1 @ ''put error: ''
                 @ keyval_db_last_err E (offset_db s1) @ [NL]\<rparr>)
         else (False, s1))"

definition index_tex ::
  "'sp extern \<Rightarrow> string \<Rightarrow> uint32_t \<Rightarrow> size_t \<Rightarrow> 'sp indexer \<Rightarrow> 'sp indexer" where
  \<comment> \<open>on success \<^verbatim>\<open>math_index_add_tex\<close> (line 93) comes before \<^verbatim>\<open>subpaths_release\<close> (line 95)\<close>
  "index_tex E tex ofs n s =
     (let parse_ret = tex_parse E tex 0 False;
          s1 = (if code parse_ret = PARSER_RETCODE_SUCC
                then
                  (let ret = math_index_add_tex E (math_index s) (prev_docID s + 1)
                               (cur_position s) (subpaths parse_ret);
                       sa = s\<lparr>math_index := math_index s
                              @ [(prev_docID s + 1, cur_position s, subpaths parse_ret)],
                            subpaths_calls := subpaths_calls s
                              @ [Sp_math_index_add_tex (prev_docID s + 1) (cur_position s)
                                   (subpaths parse_ret) ret]\<rparr>
                   in sa\<lparr>released := released sa @ [subpaths parse_ret],
                        subpaths_calls := subpaths_calls sa @ [Sp_release (subpaths parse_ret)]\<rparr>)
                else s\<lparr>stdout := stdout s @ ''parsing TeX (`'' @ tex @ [CHR 0x27]
                         @ '') error: '' @ msg parse_ret @ [NL]\<rparr>);
          s2 = snd (save_offset E ofs (of_nat n) s1)
      in s2\<lparr>cur_position := cur_position s2 + 1\<rparr>)"

definition index_term ::
  "'sp extern \<Rightarrow> string \<Rightarrow> uint32_t \<Rightarrow> size_t \<Rightarrow> 'sp indexer \<Rightarrow> 'sp indexer" where
  "index_term E term ofs n s =
     (let s1 = s\<lparr>term_index := term_index s @ [Ti_doc_add term]\<rparr>;
          s2 = snd (save_offset E ofs (of_nat n) s1)
      in s2\<lparr>cur_position := cur_position s2 + 1\<rparr>)"

definition cb_index_term ::
  "'sp extern \<Rightarrow> uint32_t \<Rightarrow> text_seg \<Rightarrow> 'sp indexer \<Rightarrow> text_seg \<times> 'sp indexer" where
  \<comment> \<open>the list callback \<^verbatim>\<open>_index_term\<close>: the segment afterwards and the state\<close>
  "cb_index_term E slice_offset seg s =
     (let seg' = seg\<lparr>seg_offset := seg_offset seg + slice_offset\<rparr>
      in (seg', index_term E (seg_str seg') (seg_offset seg') (seg_n_bytes seg') s))"

fun list_foreach ::
  "text_seg list \<Rightarrow> (text_seg \<Rightarrow> 'sp indexer \<Rightarrow> text_seg \<times> 'sp indexer) \<Rightarrow> 'sp indexer
   \<Rightarrow> text_seg list \<times> 'sp indexer" where
  \<comment> \<open>the callback goes over every node, from the head of the list\<close>
  "list_foreach [] cb s = ([], s)"
| "list_foreach (seg # li) cb s =
     (let (seg', s1) = cb seg s; (li', s2) = list_foreach li cb s1 in (seg' # li', s2))"

definition indexer_handle_slice ::
  "'sp extern \<Rightarrow> lex_slice \<Rightarrow> 'sp indexer \<Rightarrow> fatal + lex_slice \<times> 'sp indexer" where
  \<comment> \<open>\<open>sl\<close> is the argument \<^verbatim>\<open>slice\<close>; the result is the slice afterwards (its string is
      rewritten in place) and the state\<close>
  "indexer_handle_slice E sl s =
     (let str_sz = strlen (mb_str sl) in
      case sl_type sl of
        LEX_SLICE_TYPE_MATH \<Rightarrow>
          (let s1 = s\<lparr>term_index := term_index s @ [Ti_doc_add ''math_exp'']\<rparr>;
               sl' = sl\<lparr>mb_str := strip_math_tag E (mb_str sl) str_sz\<rparr>
           in Inr (sl', index_tex E (mb_str sl') (sl_offset sl') str_sz s1))
      | LEX_SLICE_TYPE_TEXT \<Rightarrow>
          (let sl' = sl\<lparr>mb_str := eng_to_lower_case E (mb_str sl) str_sz\<rparr>;
               li = text_segment E (mb_str sl');
               (li', s1) = list_foreach li (cb_index_term E (sl_offset sl')) s
           in Inr (sl', s1))
      | LEX_SLICE_TYPE_ENG_TEXT \<Rightarrow>
          (let sl' = sl\<lparr>mb_str := eng_to_lower_case E (mb_str sl) str_sz\<rparr>
           in Inr (sl', index_term E (mb_str sl') (sl_offset sl') str_sz s))
      | LEX_SLICE_TYPE_OTHER \<Rightarrow> Inl Assert_failed)"

definition index_maintain :: "'sp extern \<Rightarrow> 'sp indexer \<Rightarrow> 'sp indexer" where
  \<comment> \<open>\<^verbatim>\<open>fflush\<close> and \<^verbatim>\<open>sleep\<close> change nothing of the state\<close>
  "index_maintain E s =
     (let ran = term_index_maintain E (term_index s);
          s1 = s\<lparr>term_index := term_index s @ [Ti_maintain ran]\<rparr>
      in if ran
         then s1\<lparr>stdout := stdout s1 @ CR # ''[index maintaining...]'',
                 offset_db := offset_db s1 @ [Kv_flush]\<rparr>
         else s1)"

definition get_json_val ::
  "'sp extern \<Rightarrow> string \<Rightarrow> string list \<Rightarrow> string \<Rightarrow> 'sp indexer
   \<Rightarrow> bool \<times> string \<times> 'sp indexer" where
  \<comment> \<open>the result, the buffer \<^verbatim>\<open>val\<close> afterwards, and the state\<close>
  "get_json_val E json path val s =
     (case yajl_tree_parse E json of
        Inl err_str \<Rightarrow>
          (False, val, s\<lparr>stderr := stderr s @ ''parser error: '' @ err_str @ [NL]\<rparr>)
      | Inr tr \<Rightarrow>
          (case yajl_tree_get tr path yajl_t_string of
             None \<Rightarrow> (False, val, s\<lparr>stderr := stderr s @ ''JSON node not found.'' @ [NL]\<rparr>)
           | Some node \<Rightarrow> (True, c_str (YAJL_GET_STRING node), s)))"

fun run_lexer :: "'sp extern \<Rightarrow> lex_slice list \<Rightarrow> 'sp indexer \<Rightarrow> fatal + 'sp indexer" where
  \<comment> \<open>the call \<^verbatim>\<open>(*lex)(fh_txt)\<close>: one call of \<^verbatim>\<open>indexer_handle_slice\<close> for each slice\<close>
  "run_lexer E [] s = Inr s"
| "run_lexer E (sl # sls) s =
     (case indexer_handle_slice E sl s of
        Inl e \<Rightarrow> Inl e
      | Inr (sl', s1) \<Rightarrow> run_lexer E sls s1)"

definition index_text_field ::
  "'sp extern \<Rightarrow> string \<Rightarrow> text_lexer \<Rightarrow> 'sp indexer \<Rightarrow> fatal + 'sp indexer" where
  \<comment> \<open>\<open>lexer\<close> is the argument \<^verbatim>\<open>lex\<close>\<close>
  "index_text_field E txt lexer s =
     (let txt_sz = strlen txt in
      if \<not> fmemopen E txt txt_sz then Inl Exit_failure
      else
        (let s1 = s\<lparr>term_index := term_index s @ [Ti_doc_begin]\<rparr> in
         case run_lexer E (lexer (take txt_sz txt)) s1 of
           Inl e \<Rightarrow> Inl e
         | Inr s2 \<Rightarrow>
             (let s3 = index_blob E Blob_index_txt txt txt_sz True s2;
                  d = term_index_doc_end E (term_index s3);
                  s4 = s3\<lparr>term_index := term_index s3 @ [Ti_doc_end d]\<rparr>
              in if d = prev_docID s4 + 1
                 then Inr (s4\<lparr>prev_docID := d, cur_position := 0\<rparr>)
                 else Inl Assert_failed)))"

definition indexer_index_json ::
  "'sp extern \<Rightarrow> string \<Rightarrow> text_lexer \<Rightarrow> 'sp indexer \<Rightarrow> fatal + 'sp indexer" where
  \<comment> \<open>\<open>fh\<close> is what the stream still holds\<close>
  "indexer_index_json E fh lexer s =
     (let (rd_sz, buf) = fread (doc_json s) (MAX_CORPUS_FILE_SZ E) fh;
          s1 = s\<lparr>doc_json := buf\<rparr>
      in if rd_sz = MAX_CORPUS_FILE_SZ E
         then Inr (s1\<lparr>stderr := stderr s1 @ ''corpus file too large!'' @ [NL]\<rparr>)
         else
           (case get_json_val E (c_str (doc_json s1)) [''url''] (url_field s1) s1 of
              (url_ok, url, s2) \<Rightarrow>
                if \<not> url_ok then Inr (s2\<lparr>url_field := url\<rparr>)
                else
                  (case get_json_val E (c_str (doc_json s2)) [''text''] (txt_field s2)
                          (s2\<lparr>url_field := url\<rparr>) of
                     (txt_ok, txt, s3) \<Rightarrow>
                       if \<not> txt_ok then Inr (s3\<lparr>txt_field := txt\<rparr>)
                       else
                         (let s4 = s3\<lparr>txt_field := txt\<rparr>;
                              s5 = index_blob E Blob_index_url (url_field s4)
                                     (strlen (url_field s4)) False s4
                          in case index_text_field E (txt_field s5) lexer s5 of
                               Inl e \<Rightarrow> Inl e
                             | Inr s6 \<Rightarrow> Inr (index_maintain E s6)))))"

definition indexer_assign ::
  "ti_call list \<Rightarrow> (doc_id_t \<times> position_t \<times> 'sp) list \<Rightarrow> kv_call list
   \<Rightarrow> (doc_id_t \<times> string) list \<Rightarrow> (doc_id_t \<times> string) list \<Rightarrow> 'sp indexer \<Rightarrow> 'sp indexer" where
  \<comment> \<open>the five handles of \<^verbatim>\<open>struct indices\<close>: \<^verbatim>\<open>ti\<close>, \<^verbatim>\<open>mi\<close>, \<^verbatim>\<open>ofs_db\<close>, \<^verbatim>\<open>url_bi\<close>, \<^verbatim>\<open>txt_bi\<close>\<close>
  "indexer_assign ti mi ofs_db url_bi txt_bi s =
     s\<lparr>term_index := ti, math_index := mi, offset_db := ofs_db,
       blob_index_url := url_bi, blob_index_txt := txt_bi\<rparr>"

text \<open>
  The caller of this file (not under \<^verbatim>\<open>src/\<close>) calls \<^verbatim>\<open>indexer_index_json\<close> once for each
  corpus file; a fatal end of one call ends the run.
\<close>

fun index_corpus ::
  "'sp extern \<Rightarrow> string list \<Rightarrow> text_lexer \<Rightarrow> 'sp indexer \<Rightarrow> fatal + 'sp indexer" where
  "index_corpus E [] lexer s = Inr s"
| "index_corpus E (fh # fhs) lexer s =
     (case indexer_index_json E fh lexer s of
        Inl e \<Rightarrow> Inl e
      | Inr s1 \<Rightarrow> index_corpus E fhs lexer s1)"

subsection \<open>Reading the stores\<close>

fun doc_end_ids :: "ti_call list \<Rightarrow> doc_id_t list" where
  \<comment> \<open>the docIDs that \<^verbatim>\<open>term_index_doc_end\<close> returned, in order\<close>
  "doc_end_ids [] = []"
| "doc_end_ids (Ti_doc_end d # cs) = d # doc_end_ids cs"
| "doc_end_ids (c # cs) = doc_end_ids cs"

fun added_terms :: "ti_call list \<Rightarrow> string list" where
  \<comment> \<open>the terms given to \<^verbatim>\<open>term_index_doc_add\<close>, in order\<close>
  "added_terms [] = []"
| "added_terms (Ti_doc_add t # cs) = t # added_terms cs"
| "added_terms (c # cs) = added_terms cs"

fun put_calls :: "kv_call list \<Rightarrow> (offsetmap_from_t \<times> offsetmap_to_t \<times> bool) list" where
  \<comment> \<open>the calls of \<^verbatim>\<open>keyval_db_put\<close>: key, value, and whether the call failed\<close>
  "put_calls [] = []"
| "put_calls (Kv_put k v failed # cs) = (k, v, failed) # put_calls cs"
| "put_calls (Kv_flush # cs) = put_calls cs"

definition offset_entries :: "kv_call list \<Rightarrow> (offsetmap_from_t \<times> offsetmap_to_t) list" where
  \<comment> \<open>the entries created: the puts that did not fail\<close>
  "offset_entries cs = map (\<lambda>(k, v, failed). (k, v)) (filter (\<lambda>(k, v, failed). \<not> failed) (put_calls cs))"

definition new_puts ::
  "'sp indexer \<Rightarrow> 'sp indexer \<Rightarrow> (offsetmap_from_t \<times> offsetmap_to_t \<times> bool) list" where
  \<comment> \<open>the calls of \<^verbatim>\<open>keyval_db_put\<close> made between an earlier and a later state\<close>
  "new_puts s s' = drop (length (put_calls (offset_db s))) (put_calls (offset_db s'))"

definition new_math :: "'sp indexer \<Rightarrow> 'sp indexer \<Rightarrow> (doc_id_t \<times> position_t \<times> 'sp) list" where
  \<comment> \<open>the calls of \<^verbatim>\<open>math_index_add_tex\<close> made between an earlier and a later state\<close>
  "new_math s s' = drop (length (math_index s)) (math_index s')"

definition finalized :: "'sp indexer \<Rightarrow> 'sp indexer \<Rightarrow> doc_id_t list" where
  \<comment> \<open>the docIDs that \<^verbatim>\<open>term_index_doc_end\<close> returned between an earlier and a later state\<close>
  "finalized s s' = drop (length (doc_end_ids (term_index s))) (doc_end_ids (term_index s'))"

definition next_keys :: "'sp indexer \<Rightarrow> nat \<Rightarrow> offsetmap_from_t list" where
  \<comment> \<open>the offset keys of the next \<open>n\<close> positions of the document being indexed\<close>
  "next_keys s n =
     map (\<lambda>i. \<lparr>docID = prev_docID s + 1, pos = cur_position s + of_nat i\<rparr>) [0..<n]"

definition lexed ::
  "'sp indexer \<Rightarrow> 'sp indexer \<Rightarrow> (offsetmap_from_t \<times> offsetmap_to_t \<times> bool) list \<Rightarrow> string list
   \<Rightarrow> (doc_id_t \<times> position_t \<times> 'sp) list \<Rightarrow> bool" where
  \<comment> \<open>what token handling does between two states: the puts \<open>ps\<close>, the terms \<open>ts\<close> and the
      math entries \<open>ms\<close> are appended, one position is taken for each put, and the rest is
      untouched\<close>
  "lexed s s' ps ts ms \<longleftrightarrow>
     offset_db s' = offset_db s @ map (\<lambda>(k, v, failed). Kv_put k v failed) ps
   \<and> map fst ps = next_keys s (length ps)
   \<and> term_index s' = term_index s @ map Ti_doc_add ts
   \<and> length ts = length ps
   \<and> math_index s' = math_index s @ ms
   \<and> (\<forall>m \<in> set ms. fst m = prev_docID s + 1)
   \<and> cur_position s' = cur_position s + of_nat (length ps)
   \<and> prev_docID s' = prev_docID s
   \<and> blob_index_url s' = blob_index_url s
   \<and> blob_index_txt s' = blob_index_txt s"

fun paired :: "'sp subpaths_call list \<Rightarrow> bool" where
  \<comment> \<open>every call of \<^verbatim>\<open>math_index_add_tex\<close> is followed at once by the release of the subpaths
      it was handed, and nothing is released otherwise\<close>
  "paired [] = True"
| "paired (Sp_math_index_add_tex d p sp ret # Sp_release sp' # cs) = (sp' = sp \<and> paired cs)"
| "paired cs = False"

fun sp_adds :: "'sp subpaths_call list \<Rightarrow> (doc_id_t \<times> position_t \<times> 'sp) list" where
  \<comment> \<open>what \<^verbatim>\<open>math_index_add_tex\<close> was called with, in order\<close>
  "sp_adds [] = []"
| "sp_adds (Sp_math_index_add_tex d p sp ret # cs) = (d, p, sp) # sp_adds cs"
| "sp_adds (Sp_release sp # cs) = sp_adds cs"

fun sp_releases :: "'sp subpaths_call list \<Rightarrow> 'sp list" where
  \<comment> \<open>what \<^verbatim>\<open>subpaths_release\<close> was called with, in order\<close>
  "sp_releases [] = []"
| "sp_releases (Sp_release sp # cs) = sp # sp_releases cs"
| "sp_releases (Sp_math_index_add_tex d p sp ret # cs) = sp_releases cs"

definition new_subpaths_calls :: "'sp indexer \<Rightarrow> 'sp indexer \<Rightarrow> 'sp subpaths_call list" where
  \<comment> \<open>the calls on subpaths made between an earlier and a later state\<close>
  "new_subpaths_calls s s' = drop (length (subpaths_calls s)) (subpaths_calls s')"

definition envelope_seen :: "'sp extern \<Rightarrow> string \<Rightarrow> 'sp indexer \<Rightarrow> string" where
  \<comment> \<open>the C string in \<^verbatim>\<open>doc_json\<close> after the \<^verbatim>\<open>fread\<close>, which \<^verbatim>\<open>get_json_val\<close> is given\<close>
  "envelope_seen E fh s = c_str (snd (fread (doc_json s) (MAX_CORPUS_FILE_SZ E) fh))"

definition json_field :: "'sp extern \<Rightarrow> string \<Rightarrow> string \<Rightarrow> string option" where
  \<comment> \<open>the string that \<^verbatim>\<open>get_json_val\<close> copies out of the envelope for a one-element path\<close>
  "json_field E json key =
     (case yajl_tree_parse E json of
        Inl err_str \<Rightarrow> None
      | Inr tr \<Rightarrow> map_option (\<lambda>node. c_str (YAJL_GET_STRING node))
                   (yajl_tree_get tr [key] yajl_t_string))"

definition token_slice :: "'sp extern \<Rightarrow> lex_slice \<Rightarrow> bool" where
  \<comment> \<open>a slice of one plain-text token: an English-text slice, or a text slice that the
      segmenter returns as a single segment\<close>
  "token_slice E sl =
     (case sl_type sl of
        LEX_SLICE_TYPE_ENG_TEXT \<Rightarrow> True
      | LEX_SLICE_TYPE_TEXT \<Rightarrow>
          length (text_segment E (eng_to_lower_case E (mb_str sl) (strlen (mb_str sl)))) = 1
      | LEX_SLICE_TYPE_MATH \<Rightarrow> False
      | LEX_SLICE_TYPE_OTHER \<Rightarrow> False)"

subsection \<open>A concrete environment\<close>

text \<open>
  Test doubles for the external components, used to run the functions on concrete inputs.
  The envelope is the one of the end-to-end scenario.
\<close>

definition demo_envelope :: string where
  \<open>demo_envelope = ''{"url":"http://x","text":"The <math>x^2</math> is positive"}''\<close>

definition url_only_envelope :: string where
  \<open>url_only_envelope = ''{"url":"http://y"}''\<close>

definition oversized_envelope :: string where
  "oversized_envelope = replicate 81 (CHR ''x'')"

definition demo_text :: string where
  "demo_text = ''The <math>x^2</math> is positive''"

definition demo_tree :: yajl_val where
  "demo_tree = Yajl_object [(''url'', Yajl_string ''http://x''), (''text'', Yajl_string demo_text)]"

definition demo_tex_parse :: "string \<Rightarrow> nat \<Rightarrow> bool \<Rightarrow> string list tex_parse_ret" where
  "demo_tex_parse tex len keep =
     (if tex = ''x^2''
      then \<lparr>code = PARSER_RETCODE_SUCC, subpaths = [''x/base'', ''2/sup''], msg = []\<rparr>
      else \<lparr>code = PARSER_RETCODE_ERR, subpaths = [], msg = ''syntax error''\<rparr>)"

definition demo_text_segment :: "string \<Rightarrow> text_seg list" where
  \<comment> \<open>one segment for the text after its leading blanks, none for a blank text\<close>
  "demo_text_segment str =
     (let blanks = takeWhile (\<lambda>c. c = CHR '' '') str; rest = drop (length blanks) str
      in if rest = [] then []
         else [\<lparr>seg_str = rest, seg_offset = of_nat (length blanks), seg_n_bytes = length rest\<rparr>])"

definition demo_lower :: "char \<Rightarrow> char" where
  "demo_lower c = (if c = CHR ''T'' then CHR ''t'' else c)"

definition demo_extern :: "string list extern" where
  "demo_extern =
     \<lparr>MAX_CORPUS_FILE_SZ = 80,
      tex_parse = demo_tex_parse,
      math_index_add_tex = (\<lambda>log d p sp. 0),
      strip_math_tag = (\<lambda>str n. take (n - 13) (drop 6 str)),
      eng_to_lower_case = (\<lambda>str n. map demo_lower str),
      text_segment = demo_text_segment,
      codec_compress = (\<lambda>str n. ''gz:'' @ take n str),
      keyval_db_put = (\<lambda>log k v. False),
      keyval_db_last_err = (\<lambda>log. ''IO error''),
      term_index_doc_end = (\<lambda>log. of_nat (length (doc_end_ids log)) + 1),
      term_index_maintain = (\<lambda>log. False),
      yajl_tree_parse =
        (\<lambda>json. if json = demo_envelope then Inr demo_tree
                else if json = url_only_envelope
                then Inr (Yajl_object [(''url'', Yajl_string ''http://y'')])
                else Inl ''lexical error''),
      fmemopen = (\<lambda>buf n. True)\<rparr>"

definition demo_lexer :: text_lexer where
  "demo_lexer txt =
     (if txt = demo_text
      then [\<lparr>mb_str = ''The '', sl_offset = 0, sl_type = LEX_SLICE_TYPE_ENG_TEXT\<rparr>,
            \<lparr>mb_str = ''<math>x^2</math>'', sl_offset = 4, sl_type = LEX_SLICE_TYPE_MATH\<rparr>,
            \<lparr>mb_str = '' is positive'', sl_offset = 20, sl_type = LEX_SLICE_TYPE_TEXT\<rparr>]
      else [])"

definition demo_init :: "string list indexer" where
  \<comment> \<open>the statics as initialised, with empty stores assigned\<close>
  "demo_init =
     \<lparr>term_index = [], math_index = [], offset_db = [], blob_index_url = [],
      blob_index_txt = [], prev_docID = 0, cur_position = 0, released = [],
      subpaths_calls = [],
      doc_json = replicate 80 NUL, url_field = replicate 80 NUL,
      txt_field = replicate 80 NUL, stdout = [], stderr = []\<rparr>"

definition failing_extern :: "string list extern" where
  \<comment> \<open>as \<open>demo_extern\<close>, with an offset store that refuses every put\<close>
  "failing_extern = demo_extern\<lparr>keyval_db_put := (\<lambda>log k v. True)\<rparr>"

definition math_refusing_extern :: "string list extern" where
  \<comment> \<open>as \<open>demo_extern\<close>, with a math index whose add reports an error\<close>
  "math_refusing_extern = demo_extern\<lparr>math_index_add_tex := (\<lambda>log d p sp. - 1)\<rparr>"

definition mismatch_extern :: "string list extern" where
  \<comment> \<open>as \<open>demo_extern\<close>, with a term index that returns a wrong docID\<close>
  "mismatch_extern = demo_extern\<lparr>term_index_doc_end := (\<lambda>log. 7)\<rparr>"

definition wrap_extern :: "string list extern" where
  \<comment> \<open>as \<open>demo_extern\<close>, with a term index whose next docID is the largest one\<close>
  "wrap_extern =
     demo_extern\<lparr>term_index_doc_end := (\<lambda>log. of_nat (length (doc_end_ids log)) + 0xFFFFFFFF)\<rparr>"

definition wrap_init :: "string list indexer" where
  "wrap_init = demo_init\<lparr>prev_docID := 0xFFFFFFFE\<rparr>"

definition blank_slice :: lex_slice where
  "blank_slice = \<lparr>mb_str = ''  '', sl_offset = 8, sl_type = LEX_SLICE_TYPE_TEXT\<rparr>"

definition same_index :: "'sp indexer \<Rightarrow> 'sp indexer \<Rightarrow> bool" where
  \<comment> \<open>two states that differ at most in the offset store, the buffers and the output\<close>
  "same_index s t \<longleftrightarrow>
     term_index s = term_index t \<and> math_index s = math_index t
   \<and> cur_position s = cur_position t \<and> prev_docID s = prev_docID t
   \<and> released s = released t \<and> blob_index_url s = blob_index_url t
   \<and> blob_index_txt s = blob_index_txt t"

definition demo_lexed :: "string list extern \<Rightarrow> string list indexer" where
  \<comment> \<open>the state after the slices of the scenario, from the initial state\<close>
  "demo_lexed E = projr (run_lexer E (demo_lexer demo_text) demo_init)"

definition finished ::
  "'sp extern \<Rightarrow> string \<Rightarrow> 'sp indexer \<Rightarrow> 'sp indexer \<Rightarrow> bool" where
  \<comment> \<open>what \<^verbatim>\<open>index_text_field\<close> has done when it returns, between the state before and after\<close>
  "finished E txt s s' \<longleftrightarrow>
     (\<exists>ps ts ms.
        put_calls (offset_db s') = put_calls (offset_db s) @ ps
      \<and> map fst ps = next_keys s (length ps)
      \<and> added_terms (term_index s') = added_terms (term_index s) @ ts
      \<and> length ts = length ps
      \<and> math_index s' = math_index s @ ms
      \<and> (\<forall>m \<in> set ms. fst m = prev_docID s + 1))
   \<and> doc_end_ids (term_index s') = doc_end_ids (term_index s) @ [prev_docID s + 1]
   \<and> blob_index_txt s' = blob_index_txt s @ [(prev_docID s + 1, codec_compress E txt (strlen txt))]
   \<and> blob_index_url s' = blob_index_url s
   \<and> prev_docID s' = prev_docID s + 1
   \<and> cur_position s' = 0"

definition handed_over :: "'sp indexer \<Rightarrow> 'sp indexer \<Rightarrow> 'sp subpaths_call list \<Rightarrow> bool" where
  \<comment> \<open>between two states the calls \<open>cs\<close> on subpaths were made, each subpaths handed to the
      math index being released right after\<close>
  "handed_over s s' cs \<longleftrightarrow>
     subpaths_calls s' = subpaths_calls s @ cs \<and> paired cs
   \<and> math_index s' = math_index s @ sp_adds cs
   \<and> released s' = released s @ sp_releases cs"

section \<open>Basic facts\<close>

subsection \<open>The call lists\<close>

lemma put_calls_append: "put_calls (xs @ ys) = put_calls xs @ put_calls ys"
  by (induction xs rule: put_calls.induct) simp_all

lemma added_terms_append: "added_terms (xs @ ys) = added_terms xs @ added_terms ys"
  by (induction xs rule: added_terms.induct) simp_all

lemma doc_end_ids_append: "doc_end_ids (xs @ ys) = doc_end_ids xs @ doc_end_ids ys"
  by (induction xs rule: doc_end_ids.induct) simp_all

subsection \<open>What the token paths change\<close>

lemma save_offset_frame:
  "term_index (snd (save_offset E ofs n s)) = term_index s"
  "math_index (snd (save_offset E ofs n s)) = math_index s"
  "blob_index_url (snd (save_offset E ofs n s)) = blob_index_url s"
  "blob_index_txt (snd (save_offset E ofs n s)) = blob_index_txt s"
  "prev_docID (snd (save_offset E ofs n s)) = prev_docID s"
  "cur_position (snd (save_offset E ofs n s)) = cur_position s"
  "released (snd (save_offset E ofs n s)) = released s"
  "doc_json (snd (save_offset E ofs n s)) = doc_json s"
  "url_field (snd (save_offset E ofs n s)) = url_field s"
  "txt_field (snd (save_offset E ofs n s)) = txt_field s"
  "stderr (snd (save_offset E ofs n s)) = stderr s"
  by (simp_all add: save_offset_def Let_def)

lemma save_offset_db:
  "offset_db (snd (save_offset E ofs n s)) =
     offset_db s @ [Kv_put \<lparr>docID = prev_docID s + 1, pos = cur_position s\<rparr>
                      \<lparr>offset = ofs, n_bytes = n\<rparr>
                      (keyval_db_put E (offset_db s) \<lparr>docID = prev_docID s + 1, pos = cur_position s\<rparr>
                      \<lparr>offset = ofs, n_bytes = n\<rparr>)]"
  by (simp add: save_offset_def Let_def)

lemma index_term_frame:
  "term_index (index_term E t ofs n s) = term_index s @ [Ti_doc_add t]"
  "math_index (index_term E t ofs n s) = math_index s"
  "blob_index_url (index_term E t ofs n s) = blob_index_url s"
  "blob_index_txt (index_term E t ofs n s) = blob_index_txt s"
  "prev_docID (index_term E t ofs n s) = prev_docID s"
  "cur_position (index_term E t ofs n s) = cur_position s + 1"
  "released (index_term E t ofs n s) = released s"
  "doc_json (index_term E t ofs n s) = doc_json s"
  "url_field (index_term E t ofs n s) = url_field s"
  "txt_field (index_term E t ofs n s) = txt_field s"
  "stderr (index_term E t ofs n s) = stderr s"
  by (simp_all add: index_term_def Let_def save_offset_frame)

lemma index_term_db:
  "offset_db (index_term E t ofs n s) =
     offset_db s @ [Kv_put \<lparr>docID = prev_docID s + 1, pos = cur_position s\<rparr>
                      \<lparr>offset = ofs, n_bytes = of_nat n\<rparr>
                      (keyval_db_put E (offset_db s) \<lparr>docID = prev_docID s + 1, pos = cur_position s\<rparr>
                      \<lparr>offset = ofs, n_bytes = of_nat n\<rparr>)]"
  by (simp add: index_term_def Let_def save_offset_db)

lemma index_tex_frame:
  "term_index (index_tex E t ofs n s) = term_index s"
  "blob_index_url (index_tex E t ofs n s) = blob_index_url s"
  "blob_index_txt (index_tex E t ofs n s) = blob_index_txt s"
  "prev_docID (index_tex E t ofs n s) = prev_docID s"
  "cur_position (index_tex E t ofs n s) = cur_position s + 1"
  "doc_json (index_tex E t ofs n s) = doc_json s"
  "url_field (index_tex E t ofs n s) = url_field s"
  "txt_field (index_tex E t ofs n s) = txt_field s"
  "stderr (index_tex E t ofs n s) = stderr s"
  by (simp_all add: index_tex_def Let_def save_offset_frame)

lemma index_tex_db:
  "offset_db (index_tex E t ofs n s) =
     offset_db s @ [Kv_put \<lparr>docID = prev_docID s + 1, pos = cur_position s\<rparr>
                      \<lparr>offset = ofs, n_bytes = of_nat n\<rparr>
                      (keyval_db_put E (offset_db s) \<lparr>docID = prev_docID s + 1, pos = cur_position s\<rparr>
                      \<lparr>offset = ofs, n_bytes = of_nat n\<rparr>)]"
  by (simp add: index_tex_def Let_def save_offset_db)

lemma index_tex_math:
  "math_index (index_tex E t ofs n s) =
     (if code (tex_parse E t 0 False) = PARSER_RETCODE_SUCC
      then math_index s @ [(prev_docID s + 1, cur_position s, subpaths (tex_parse E t 0 False))]
      else math_index s)"
  "released (index_tex E t ofs n s) =
     (if code (tex_parse E t 0 False) = PARSER_RETCODE_SUCC
      then released s @ [subpaths (tex_parse E t 0 False)]
      else released s)"
  by (simp_all add: index_tex_def Let_def save_offset_frame)



subsection \<open>Token handling between two states\<close>

lemma next_keys_0: "next_keys s 0 = []"
  by (simp add: next_keys_def)

lemma upt_split_shift: "[0..<n + m] = [0..<n] @ map (\<lambda>i. i + n) [0..<m]"
proof -
  have "[0..<n + m] = [0..<n] @ [n..<n + m]"
    by (rule upt_add_eq_append) simp
  moreover have "map (\<lambda>i. i + n) [0..<m] = [n..<n + m]"
    using map_add_upt [of n m] by (simp only: add.commute)
  ultimately show ?thesis by simp
qed

lemma next_keys_add:
  assumes "prev_docID s1 = prev_docID s" and "cur_position s1 = cur_position s + of_nat n"
  shows "next_keys s (n + m) = next_keys s n @ next_keys s1 m"
proof -
  have "map (\<lambda>i. \<lparr>docID = prev_docID s + 1, pos = cur_position s + of_nat i\<rparr>) (map (\<lambda>i. i + n) [0..<m])
      = map (\<lambda>i. \<lparr>docID = prev_docID s1 + 1, pos = cur_position s1 + of_nat i\<rparr>) [0..<m]"
    unfolding assms by (simp add: o_def ac_simps)
  then show ?thesis
    unfolding next_keys_def upt_split_shift by simp
qed


lemma lexed_refl: "lexed s s [] [] []"
  by (simp add: lexed_def next_keys_0)

lemma lexed_trans:
  assumes a: "lexed s s1 ps1 ts1 ms1" and b: "lexed s1 s2 ps2 ts2 ms2"
  shows "lexed s s2 (ps1 @ ps2) (ts1 @ ts2) (ms1 @ ms2)"
proof -
  have p: "prev_docID s1 = prev_docID s"
    and c: "cur_position s1 = cur_position s + of_nat (length ps1)"
    using a by (simp_all add: lexed_def)
  have k: "next_keys s (length ps1 + length ps2) = next_keys s (length ps1) @ next_keys s1 (length ps2)"
    using p c by (rule next_keys_add)
  have 1: "offset_db s2 = offset_db s @ map (\<lambda>(k, v, failed). Kv_put k v failed) (ps1 @ ps2)"
    using a b by (simp add: lexed_def)
  have 2: "map fst (ps1 @ ps2) = next_keys s (length (ps1 @ ps2))"
    using a b k by (simp add: lexed_def)
  have 3: "term_index s2 = term_index s @ map Ti_doc_add (ts1 @ ts2)"
    using a b by (simp add: lexed_def)
  have 4: "length (ts1 @ ts2) = length (ps1 @ ps2)"
    using a b by (simp add: lexed_def)
  have 5: "math_index s2 = math_index s @ (ms1 @ ms2)"
    using a b by (simp add: lexed_def)
  have 6: "\<forall>m \<in> set (ms1 @ ms2). fst m = prev_docID s + 1"
    using a b p by (simp add: lexed_def ball_Un)
  have 7: "cur_position s2 = cur_position s + of_nat (length (ps1 @ ps2))"
    using a b by (simp add: lexed_def)
  have 8: "prev_docID s2 = prev_docID s" "blob_index_url s2 = blob_index_url s"
    "blob_index_txt s2 = blob_index_txt s"
    using a b by (simp_all add: lexed_def)
  show ?thesis
    unfolding lexed_def using 1 2 3 4 5 6 7 8 by blast
qed

lemma lexed_index_term:
  "lexed s (index_term E t ofs n s)
     [(\<lparr>docID = prev_docID s + 1, pos = cur_position s\<rparr>, \<lparr>offset = ofs, n_bytes = of_nat n\<rparr>,
       keyval_db_put E (offset_db s) \<lparr>docID = prev_docID s + 1, pos = cur_position s\<rparr>
         \<lparr>offset = ofs, n_bytes = of_nat n\<rparr>)] [t] []"
  by (simp add: lexed_def index_term_frame index_term_db next_keys_def)

lemma lexed_math_slice:
  "lexed s (index_tex E tex ofs n (s\<lparr>term_index := term_index s @ [Ti_doc_add t]\<rparr>))
     [(\<lparr>docID = prev_docID s + 1, pos = cur_position s\<rparr>, \<lparr>offset = ofs, n_bytes = of_nat n\<rparr>,
       keyval_db_put E (offset_db s) \<lparr>docID = prev_docID s + 1, pos = cur_position s\<rparr>
         \<lparr>offset = ofs, n_bytes = of_nat n\<rparr>)]
     [t]
     (if code (tex_parse E tex 0 False) = PARSER_RETCODE_SUCC
      then [(prev_docID s + 1, cur_position s, subpaths (tex_parse E tex 0 False))] else [])"
  by (simp add: lexed_def index_tex_frame index_tex_db index_tex_math next_keys_def)

lemma lexed_foreach:
  "\<exists>ps ts. lexed s (snd (list_foreach li (cb_index_term E so) s)) ps ts []
     \<and> length ps = length li"
proof (induction li arbitrary: s)
  case Nil
  show ?case using lexed_refl [of s] by auto
next
  case (Cons seg li)
  let ?s1 = "snd (cb_index_term E so seg s)"
  obtain p t where 1: "lexed s ?s1 [p] [t] []"
    using lexed_index_term by (fastforce simp: cb_index_term_def Let_def)
  obtain ps ts where 2: "lexed ?s1 (snd (list_foreach li (cb_index_term E so) ?s1)) ps ts []"
    and l: "length ps = length li"
    using Cons.IH by blast
  have "lexed s (snd (list_foreach li (cb_index_term E so) ?s1)) ([p] @ ps) ([t] @ ts) ([] @ [])"
    using 1 2 by (rule lexed_trans)
  moreover have "snd (list_foreach (seg # li) (cb_index_term E so) s)
      = snd (list_foreach li (cb_index_term E so) ?s1)"
    by (simp add: Let_def split: prod.splits)
  ultimately show ?case using l by (intro exI [of _ "p # ps"] exI [of _ "t # ts"]) simp
qed

lemma lexed_handle_slice:
  assumes "indexer_handle_slice E sl s = Inr (sl', s')"
  shows "\<exists>ps ts ms. lexed s s' ps ts ms"
proof (cases "sl_type sl")
  case LEX_SLICE_TYPE_MATH
  then have "s' = index_tex E (strip_math_tag E (mb_str sl) (strlen (mb_str sl))) (sl_offset sl)
      (strlen (mb_str sl)) (s\<lparr>term_index := term_index s @ [Ti_doc_add ''math_exp'']\<rparr>)"
    using assms by (simp add: indexer_handle_slice_def Let_def)
  then show ?thesis
    using lexed_math_slice by blast
next
  case LEX_SLICE_TYPE_TEXT
  then have "s' = snd (list_foreach
      (text_segment E (eng_to_lower_case E (mb_str sl) (strlen (mb_str sl))))
      (cb_index_term E (sl_offset sl)) s)"
    using assms by (auto simp: indexer_handle_slice_def Let_def split: prod.splits)
  then show ?thesis
    using lexed_foreach by blast
next
  case LEX_SLICE_TYPE_ENG_TEXT
  then have "s' = index_term E (eng_to_lower_case E (mb_str sl) (strlen (mb_str sl)))
      (sl_offset sl) (strlen (mb_str sl)) s"
    using assms by (simp add: indexer_handle_slice_def Let_def)
  then show ?thesis
    using lexed_index_term by blast
next
  case LEX_SLICE_TYPE_OTHER
  then show ?thesis
    using assms by (simp add: indexer_handle_slice_def Let_def)
qed

lemma lexed_run_lexer:
  "run_lexer E sls s = Inr s' \<Longrightarrow> \<exists>ps ts ms. lexed s s' ps ts ms"
proof (induction sls arbitrary: s)
  case Nil
  then show ?case using lexed_refl [of s] by auto
next
  case (Cons sl sls)
  then obtain sl' s1 where h: "indexer_handle_slice E sl s = Inr (sl', s1)"
    and r: "run_lexer E sls s1 = Inr s'"
    by (auto split: sum.splits)
  from lexed_handle_slice [OF h] obtain ps1 ts1 ms1 where 1: "lexed s s1 ps1 ts1 ms1" by blast
  from Cons.IH [OF r] obtain ps2 ts2 ms2 where 2: "lexed s1 s' ps2 ts2 ms2" by blast
  from lexed_trans [OF 1 2] show ?case by blast
qed

subsection \<open>Evaluation\<close>

text \<open>The equations that evaluate the functions on concrete inputs.\<close>

lemmas eval_defs =
  strlen_def c_str_def NUL_def NL_def CR_def fread_def blob_index_write_def index_blob_def
  save_offset_def index_tex_def index_term_def cb_index_term_def indexer_handle_slice_def
  index_maintain_def get_json_val_def index_text_field_def indexer_index_json_def
  offset_entries_def new_puts_def new_math_def finalized_def next_keys_def envelope_seen_def
  new_subpaths_calls_def json_field_def token_slice_def Let_def

lemmas demo_defs =
  demo_envelope_def url_only_envelope_def oversized_envelope_def demo_text_def demo_tree_def demo_tex_parse_def demo_text_segment_def
  demo_lower_def demo_extern_def demo_lexer_def demo_init_def failing_extern_def
  math_refusing_extern_def mismatch_extern_def wrap_extern_def wrap_init_def blank_slice_def

subsection \<open>The outcome of the offset puts does not reach the indices\<close>

lemma list_foreach_snd:
  "snd (list_foreach (seg # li) cb s) = snd (list_foreach li cb (snd (cb seg s)))"
  by (simp add: Let_def split_def)

lemma same_index_term:
  "same_index s t \<Longrightarrow>
   same_index (index_term (E\<lparr>keyval_db_put := q\<rparr>) x ofs n s) (index_term E x ofs n t)"
  by (simp add: same_index_def index_term_frame)

lemma same_index_tex:
  "same_index s t \<Longrightarrow>
   same_index (index_tex (E\<lparr>keyval_db_put := q\<rparr>) x ofs n s) (index_tex E x ofs n t)"
  by (simp add: same_index_def index_tex_frame index_tex_math)

lemma same_index_foreach:
  "same_index s t \<Longrightarrow>
   same_index (snd (list_foreach li (cb_index_term (E\<lparr>keyval_db_put := q\<rparr>) so) s))
     (snd (list_foreach li (cb_index_term E so) t))"
proof (induction li arbitrary: s t)
  case Nil
  then show ?case by simp
next
  case (Cons seg li)
  have "same_index (snd (cb_index_term (E\<lparr>keyval_db_put := q\<rparr>) so seg s))
     (snd (cb_index_term E so seg t))"
    using Cons.prems by (simp add: cb_index_term_def Let_def same_index_term)
  from Cons.IH [OF this] show ?case
    by (simp only: list_foreach_snd)
qed

lemma same_index_handle_slice:
  assumes "same_index s t"
  shows "case indexer_handle_slice E sl t of
           Inl e \<Rightarrow> indexer_handle_slice (E\<lparr>keyval_db_put := q\<rparr>) sl s = Inl e
         | Inr (sl', t') \<Rightarrow> (\<exists>s'. indexer_handle_slice (E\<lparr>keyval_db_put := q\<rparr>) sl s = Inr (sl', s')
              \<and> same_index s' t')"
proof (cases "sl_type sl")
  case LEX_SLICE_TYPE_MATH
  have "same_index (s\<lparr>term_index := term_index s @ [Ti_doc_add ''math_exp'']\<rparr>)
     (t\<lparr>term_index := term_index t @ [Ti_doc_add ''math_exp'']\<rparr>)"
    using assms by (simp add: same_index_def)
  from same_index_tex [OF this] LEX_SLICE_TYPE_MATH show ?thesis
    by (simp add: indexer_handle_slice_def Let_def)
next
  case LEX_SLICE_TYPE_TEXT
  with same_index_foreach [OF assms] show ?thesis
    by (simp add: indexer_handle_slice_def Let_def split_def)
next
  case LEX_SLICE_TYPE_ENG_TEXT
  with same_index_term [OF assms] show ?thesis
    by (simp add: indexer_handle_slice_def Let_def)
next
  case LEX_SLICE_TYPE_OTHER
  then show ?thesis
    by (simp add: indexer_handle_slice_def Let_def)
qed

lemma same_index_run_lexer:
  "same_index s t \<Longrightarrow> run_lexer E sls t = Inr t' \<Longrightarrow>
   \<exists>s'. run_lexer (E\<lparr>keyval_db_put := q\<rparr>) sls s = Inr s' \<and> same_index s' t'"
proof (induction sls arbitrary: s t)
  case Nil
  then show ?case by simp
next
  case (Cons sl sls)
  from Cons.prems(2) obtain sl' t1 where h: "indexer_handle_slice E sl t = Inr (sl', t1)"
    and r: "run_lexer E sls t1 = Inr t'"
    by (auto split: sum.splits)
  from same_index_handle_slice [OF Cons.prems(1), where E = E and sl = sl and q = q] h
  obtain s1 where h': "indexer_handle_slice (E\<lparr>keyval_db_put := q\<rparr>) sl s = Inr (sl', s1)"
    and i: "same_index s1 t1"
    by auto
  from Cons.IH [OF i r] h' show ?case by simp
qed

subsection \<open>Puts and positions of a run of slices\<close>

lemma put_calls_map_put: "put_calls (map (\<lambda>(k, v, failed). Kv_put k v failed) ps) = ps"
  by (induction ps) auto

lemma added_terms_map_add: "added_terms (map Ti_doc_add ts) = ts"
  by (induction ts) auto

lemma doc_end_ids_map_add: "doc_end_ids (map Ti_doc_add ts) = []"
  by (induction ts) auto

lemma offset_entries_append: "offset_entries (xs @ ys) = offset_entries xs @ offset_entries ys"
  by (simp add: offset_entries_def put_calls_append)

lemma lexed_new_puts:
  assumes "lexed s s' ps ts ms"
  shows "put_calls (offset_db s') = put_calls (offset_db s) @ ps" and "new_puts s s' = ps"
    and "new_math s s' = ms" and "finalized s s' = []"
    and "added_terms (term_index s') = added_terms (term_index s) @ ts"
  using assms
  by (simp_all add: lexed_def new_puts_def new_math_def finalized_def put_calls_append
      put_calls_map_put added_terms_append added_terms_map_add doc_end_ids_append
      doc_end_ids_map_add)

lemma all_succeeded_entries:
  "\<forall>p \<in> set ps. \<not> snd (snd p) \<Longrightarrow>
   offset_entries (map (\<lambda>(k, v, failed). Kv_put k v failed) ps) = map (\<lambda>p. (fst p, fst (snd p))) ps"
  by (induction ps) (auto simp: offset_entries_def)

lemma of_nat_32_inj:
  assumes "i < 2 ^ 32" "j < 2 ^ 32" "(of_nat i :: 32 word) = of_nat j"
  shows "i = j"
proof -
  from assms(3) have "unat (of_nat i :: 32 word) = unat (of_nat j :: 32 word)" by simp
  with assms(1,2) show ?thesis by (simp add: unat_of_nat)
qed

lemma next_keys_distinct:
  assumes "n \<le> 2 ^ 32"
  shows "distinct (next_keys s n)"
proof -
  have "inj_on (\<lambda>i. \<lparr>docID = prev_docID s + 1, pos = cur_position s + of_nat i\<rparr>) (set [0..<n])"
  proof (rule inj_onI)
    fix i j
    assume "i \<in> set [0..<n]" "j \<in> set [0..<n]"
      and e: "\<lparr>docID = prev_docID s + 1, pos = cur_position s + of_nat i\<rparr>
            = \<lparr>docID = prev_docID s + 1, pos = cur_position s + of_nat j\<rparr>"
    then have "i < 2 ^ 32" "j < 2 ^ 32" using assms by auto
    moreover from e have "(of_nat i :: 32 word) = of_nat j" by simp
    ultimately show "i = j" by (rule of_nat_32_inj)
  qed
  then show ?thesis
    by (simp add: next_keys_def distinct_map)
qed

lemma run_lexer_positions:
  assumes "run_lexer E sls s = Inr s'"
  shows "put_calls (offset_db s') = put_calls (offset_db s) @ new_puts s s'
      \<and> map fst (new_puts s s') = next_keys s (length (new_puts s s'))
      \<and> cur_position s' = cur_position s + of_nat (length (new_puts s s'))
      \<and> length (added_terms (term_index s'))
          = length (added_terms (term_index s)) + length (new_puts s s')
      \<and> ((\<forall>p \<in> set (new_puts s s'). \<not> snd (snd p)) \<longrightarrow>
           offset_entries (offset_db s')
             = offset_entries (offset_db s) @ map (\<lambda>p. (fst p, fst (snd p))) (new_puts s s'))"
proof -
  from lexed_run_lexer [OF assms] obtain ps ts ms where l: "lexed s s' ps ts ms" by blast
  note n = lexed_new_puts [OF l]
  have 1: "put_calls (offset_db s') = put_calls (offset_db s) @ new_puts s s'"
    using n by simp
  have 2: "map fst (new_puts s s') = next_keys s (length (new_puts s s'))"
    using l n by (simp add: lexed_def)
  have 3: "cur_position s' = cur_position s + of_nat (length (new_puts s s'))"
    using l n by (simp add: lexed_def)
  have 4: "length (added_terms (term_index s'))
      = length (added_terms (term_index s)) + length (new_puts s s')"
    using l n by (simp add: lexed_def)
  have 5: "offset_entries (offset_db s')
      = offset_entries (offset_db s) @ map (\<lambda>p. (fst p, fst (snd p))) (new_puts s s')"
    if "\<forall>p \<in> set (new_puts s s'). \<not> snd (snd p)"
  proof -
    have "offset_db s' = offset_db s @ map (\<lambda>(k, v, failed). Kv_put k v failed) ps"
      using l by (simp add: lexed_def)
    then show ?thesis
      using that n(2) by (simp add: offset_entries_append all_succeeded_entries)
  qed
  from 1 2 3 4 5 show ?thesis by blast
qed

subsection \<open>The envelope\<close>

lemma c_str_idem: "c_str (c_str v) = c_str v"
  by (simp add: c_str_def)

lemma json_field_is_c_str: "json_field E json key = Some v \<Longrightarrow> c_str v = v"
  by (auto simp: json_field_def c_str_idem split: sum.splits)

lemma get_json_val_None:
  assumes "json_field E json key = None"
  shows "\<exists>e. get_json_val E json [key] val s = (False, val, s\<lparr>stderr := e\<rparr>)"
proof (cases "yajl_tree_parse E json")
  case (Inl err_str)
  then have "get_json_val E json [key] val s
      = (False, val, s\<lparr>stderr := stderr s @ ''parser error: '' @ err_str @ [NL]\<rparr>)"
    unfolding get_json_val_def by simp
  then show ?thesis by (rule exI)
next
  case (Inr tr)
  with assms have "yajl_tree_get tr [key] yajl_t_string = None"
    unfolding json_field_def by simp
  with Inr have "get_json_val E json [key] val s
      = (False, val, s\<lparr>stderr := stderr s @ ''JSON node not found.'' @ [NL]\<rparr>)"
    unfolding get_json_val_def by simp
  then show ?thesis by (rule exI)
qed

lemma get_json_val_Some:
  assumes "json_field E json key = Some v"
  shows "get_json_val E json [key] val s = (True, v, s)"
proof (cases "yajl_tree_parse E json")
  case (Inl err_str)
  with assms show ?thesis unfolding json_field_def by simp
next
  case (Inr tr)
  with assms obtain node where "yajl_tree_get tr [key] yajl_t_string = Some node"
    and "v = c_str (YAJL_GET_STRING node)"
    unfolding json_field_def by auto
  with Inr show ?thesis
    unfolding get_json_val_def by simp
qed


subsection \<open>A whole document\<close>

lemma index_blob_frame:
  "term_index (index_blob E bi str n c s) = term_index s"
  "math_index (index_blob E bi str n c s) = math_index s"
  "offset_db (index_blob E bi str n c s) = offset_db s"
  "prev_docID (index_blob E bi str n c s) = prev_docID s"
  "cur_position (index_blob E bi str n c s) = cur_position s"
  "released (index_blob E bi str n c s) = released s"
  "stdout (index_blob E bi str n c s) = stdout s"
  "stderr (index_blob E bi str n c s) = stderr s"
  "doc_json (index_blob E bi str n c s) = doc_json s"
  "url_field (index_blob E bi str n c s) = url_field s"
  "txt_field (index_blob E bi str n c s) = txt_field s"
  by (simp_all add: index_blob_def blob_index_write_def split: blob_index_t.splits)

lemma index_blob_url:
  "blob_index_url (index_blob E Blob_index_url str n False s)
     = blob_index_url s @ [(prev_docID s + 1, take n str)]"
  "blob_index_txt (index_blob E Blob_index_url str n False s) = blob_index_txt s"
  by (simp_all add: index_blob_def blob_index_write_def)

lemma index_blob_txt:
  "blob_index_txt (index_blob E Blob_index_txt str n True s)
     = blob_index_txt s @ [(prev_docID s + 1, codec_compress E str n)]"
  "blob_index_url (index_blob E Blob_index_txt str n True s) = blob_index_url s"
  by (simp_all add: index_blob_def blob_index_write_def)

lemma index_maintain_frame:
  "math_index (index_maintain E s) = math_index s"
  "blob_index_url (index_maintain E s) = blob_index_url s"
  "blob_index_txt (index_maintain E s) = blob_index_txt s"
  "prev_docID (index_maintain E s) = prev_docID s"
  "cur_position (index_maintain E s) = cur_position s"
  "released (index_maintain E s) = released s"
  "put_calls (offset_db (index_maintain E s)) = put_calls (offset_db s)"
  "doc_end_ids (term_index (index_maintain E s)) = doc_end_ids (term_index s)"
  "added_terms (term_index (index_maintain E s)) = added_terms (term_index s)"
  by (simp_all add: index_maintain_def Let_def put_calls_append doc_end_ids_append
      added_terms_append)

lemma index_text_field_unfold:
  assumes "fmemopen E txt (strlen txt)"
    and "run_lexer E (lexer (take (strlen txt) txt)) (s\<lparr>term_index := term_index s @ [Ti_doc_begin]\<rparr>)
          = Inr s2"
  shows "index_text_field E txt lexer s =
     (if term_index_doc_end E (term_index s2) = prev_docID s2 + 1
      then Inr ((index_blob E Blob_index_txt txt (strlen txt) True s2)
             \<lparr>term_index := term_index s2 @ [Ti_doc_end (term_index_doc_end E (term_index s2))],
              prev_docID := term_index_doc_end E (term_index s2), cur_position := 0\<rparr>)
      else Inl Assert_failed)"
  unfolding index_text_field_def Let_def using assms
  by (simp add: index_blob_frame)

lemma index_text_field_Inr_lexer:
  assumes "index_text_field E txt lexer s = Inr s'"
  shows "fmemopen E txt (strlen txt) \<and>
    (\<exists>s2. run_lexer E (lexer (take (strlen txt) txt)) (s\<lparr>term_index := term_index s @ [Ti_doc_begin]\<rparr>)
          = Inr s2)"
proof (cases "fmemopen E txt (strlen txt)")
  case False
  with assms show ?thesis by (simp add: index_text_field_def Let_def)
next
  case True
  show ?thesis
  proof (cases "run_lexer E (lexer (take (strlen txt) txt))
      (s\<lparr>term_index := term_index s @ [Ti_doc_begin]\<rparr>)")
    case (Inl e)
    with assms True show ?thesis by (simp add: index_text_field_def Let_def)
  next
    case (Inr s2)
    with True show ?thesis by simp
  qed
qed

lemma index_text_field_Inr:
  assumes "index_text_field E txt lexer s = Inr s'"
  shows "finished E txt s s'"
proof -
  let ?s1 = "s\<lparr>term_index := term_index s @ [Ti_doc_begin]\<rparr>"
  from index_text_field_Inr_lexer [OF assms] obtain s2
    where f: "fmemopen E txt (strlen txt)"
      and r: "run_lexer E (lexer (take (strlen txt) txt)) ?s1 = Inr s2"
    by blast
  from lexed_run_lexer [OF r] obtain ps ts ms where l: "lexed ?s1 s2 ps ts ms" by blast
  then have p2: "prev_docID s2 = prev_docID s"
    by (simp add: lexed_def)
  let ?s3 = "index_blob E Blob_index_txt txt (strlen txt) True s2"
  let ?d = "term_index_doc_end E (term_index s2)"
  note u = index_text_field_unfold [where lexer = lexer and s = s, OF f r]
  have d: "?d = prev_docID s + 1"
  proof (rule ccontr)
    assume "?d \<noteq> prev_docID s + 1"
    with u p2 assms show False by simp
  qed
  have s': "s' = ?s3\<lparr>term_index := term_index s2 @ [Ti_doc_end ?d], prev_docID := ?d,
       cur_position := 0\<rparr>"
    using u d p2 assms by simp
  have k: "next_keys ?s1 (length ps) = next_keys s (length ps)"
    by (simp add: next_keys_def)
  have 1: "put_calls (offset_db s') = put_calls (offset_db s) @ ps"
    using l by (simp add: s' index_blob_frame lexed_def put_calls_append put_calls_map_put)
  have 2: "map fst ps = next_keys s (length ps)"
    using l k by (simp add: lexed_def)
  have 3: "added_terms (term_index s') = added_terms (term_index s) @ ts"
    using l by (simp add: s' index_blob_frame lexed_def added_terms_append added_terms_map_add)
  have 4: "length ts = length ps"
    using l by (simp add: lexed_def)
  have 5: "math_index s' = math_index s @ ms"
    using l by (simp add: s' index_blob_frame lexed_def)
  have 6: "\<forall>m \<in> set ms. fst m = prev_docID s + 1"
    using l by (simp add: lexed_def)
  have 7: "doc_end_ids (term_index s') = doc_end_ids (term_index s) @ [prev_docID s + 1]"
    using l d by (simp add: s' index_blob_frame lexed_def doc_end_ids_append doc_end_ids_map_add)
  have 8: "blob_index_txt s' = blob_index_txt s @ [(prev_docID s + 1, codec_compress E txt (strlen txt))]"
    using l by (simp add: s' index_blob_txt lexed_def)
  have 9: "blob_index_url s' = blob_index_url s"
    using l by (simp add: s' index_blob_txt lexed_def)
  have 10: "prev_docID s' = prev_docID s + 1" "cur_position s' = 0"
    using d by (simp_all add: s')
  show ?thesis
    unfolding finished_def using 1 2 3 4 5 6 7 8 9 10 by blast
qed

lemma fread_size: "fst (fread buf n fh) = n \<longleftrightarrow> n \<le> length fh"
  by (auto simp: fread_def Let_def min_def)

lemma strlen_json_field: "json_field E json key = Some v \<Longrightarrow> strlen v = length v"
  using json_field_is_c_str [of E json key v] by (simp add: strlen_def)

lemma indexer_index_json_rejected:
  assumes "MAX_CORPUS_FILE_SZ E \<le> length fh
         \<or> json_field E (envelope_seen E fh s) ''url'' = None
         \<or> json_field E (envelope_seen E fh s) ''text'' = None"
  shows "\<exists>b u t e. indexer_index_json E fh lexer s
           = Inr (s\<lparr>doc_json := b, url_field := u, txt_field := t, stderr := e\<rparr>)"
proof -
  obtain rd_sz buf where fr: "fread (doc_json s) (MAX_CORPUS_FILE_SZ E) fh = (rd_sz, buf)"
    by (cases "fread (doc_json s) (MAX_CORPUS_FILE_SZ E) fh")
  then have sz: "rd_sz = MAX_CORPUS_FILE_SZ E \<longleftrightarrow> MAX_CORPUS_FILE_SZ E \<le> length fh"
    using fread_size [of "doc_json s" "MAX_CORPUS_FILE_SZ E" fh] by simp
  have seen: "envelope_seen E fh s = c_str buf"
    using fr by (simp add: envelope_seen_def)
  let ?s1 = "s\<lparr>doc_json := buf\<rparr>"
  show ?thesis
  proof (cases "MAX_CORPUS_FILE_SZ E \<le> length fh")
    case True
    then have "indexer_index_json E fh lexer s
        = Inr (?s1\<lparr>stderr := stderr ?s1 @ ''corpus file too large!'' @ [NL]\<rparr>)"
      unfolding indexer_index_json_def fr using sz by simp
    then have "indexer_index_json E fh lexer s
        = Inr (s\<lparr>doc_json := buf, url_field := url_field s, txt_field := txt_field s,
                stderr := stderr s @ ''corpus file too large!'' @ [NL]\<rparr>)"
      by simp
    then show ?thesis by blast
  next
    case False
    then have big: "rd_sz \<noteq> MAX_CORPUS_FILE_SZ E" using sz by simp
    show ?thesis
    proof (cases "json_field E (envelope_seen E fh s) ''url''")
      case None
      from get_json_val_None [OF this, of "url_field ?s1" ?s1] obtain e
        where "get_json_val E (c_str buf) [''url''] (url_field ?s1) ?s1
            = (False, url_field ?s1, ?s1\<lparr>stderr := e\<rparr>)"
        unfolding seen by blast
      then have "indexer_index_json E fh lexer s = Inr (?s1\<lparr>stderr := e, url_field := url_field ?s1\<rparr>)"
        unfolding indexer_index_json_def fr using big by simp
      then have "indexer_index_json E fh lexer s
        = Inr (s\<lparr>doc_json := buf, url_field := url_field s, txt_field := txt_field s, stderr := e\<rparr>)"
        by simp
      then show ?thesis by blast
    next
      case (Some u)
      with assms False have tn: "json_field E (envelope_seen E fh s) ''text'' = None" by simp
      let ?s2 = "?s1\<lparr>url_field := u\<rparr>"
      have g1: "get_json_val E (c_str buf) [''url''] (url_field ?s1) ?s1 = (True, u, ?s1)"
        using get_json_val_Some [OF Some] unfolding seen by simp
      from get_json_val_None [OF tn, of "txt_field ?s1" ?s2] obtain e
        where g2: "get_json_val E (c_str buf) [''text''] (txt_field ?s1) ?s2
            = (False, txt_field ?s1, ?s2\<lparr>stderr := e\<rparr>)"
        unfolding seen by blast
      have "indexer_index_json E fh lexer s = Inr (?s2\<lparr>stderr := e, txt_field := txt_field ?s1\<rparr>)"
        unfolding indexer_index_json_def fr using big g1 g2 by simp
      then have "indexer_index_json E fh lexer s
        = Inr (s\<lparr>doc_json := buf, url_field := u, txt_field := txt_field s, stderr := e\<rparr>)"
        by simp
      then show ?thesis by blast
    qed
  qed
qed

lemma indexer_index_json_accepted:
  assumes "length fh < MAX_CORPUS_FILE_SZ E"
    and "json_field E (envelope_seen E fh s) ''url'' = Some u"
    and "json_field E (envelope_seen E fh s) ''text'' = Some t"
  shows "indexer_index_json E fh lexer s =
     (case index_text_field E t lexer
             (index_blob E Blob_index_url u (length u) False
                (s\<lparr>doc_json := snd (fread (doc_json s) (MAX_CORPUS_FILE_SZ E) fh),
                   url_field := u, txt_field := t\<rparr>)) of
        Inl e \<Rightarrow> Inl e
      | Inr s6 \<Rightarrow> Inr (index_maintain E s6))"
proof -
  obtain rd_sz buf where fr: "fread (doc_json s) (MAX_CORPUS_FILE_SZ E) fh = (rd_sz, buf)"
    by (cases "fread (doc_json s) (MAX_CORPUS_FILE_SZ E) fh")
  then have big: "rd_sz \<noteq> MAX_CORPUS_FILE_SZ E"
    using fread_size [of "doc_json s" "MAX_CORPUS_FILE_SZ E" fh] assms(1) by simp
  have seen: "envelope_seen E fh s = c_str buf"
    using fr by (simp add: envelope_seen_def)
  let ?s1 = "s\<lparr>doc_json := buf\<rparr>"
  let ?s2 = "?s1\<lparr>url_field := u\<rparr>"
  have g1: "get_json_val E (c_str buf) [''url''] (url_field ?s1) ?s1 = (True, u, ?s1)"
    using get_json_val_Some [OF assms(2)] unfolding seen by simp
  have g2: "get_json_val E (c_str buf) [''text''] (txt_field ?s1) ?s2 = (True, t, ?s2)"
    using get_json_val_Some [OF assms(3)] unfolding seen by simp
  have lu: "strlen u = length u"
    using assms(2) by (rule strlen_json_field)
  show ?thesis
    unfolding indexer_index_json_def fr using big g1 g2 lu by (simp add: Let_def index_blob_frame)
qed

lemma indexer_index_json_finished:
  assumes "length fh < MAX_CORPUS_FILE_SZ E"
    and "json_field E (envelope_seen E fh s) ''url'' = Some u"
    and "json_field E (envelope_seen E fh s) ''text'' = Some t"
    and "indexer_index_json E fh lexer s = Inr s'"
  shows "\<exists>s5 s6. finished E t s5 s6 \<and> s' = index_maintain E s6
     \<and> s5 = index_blob E Blob_index_url u (length u) False
            (s\<lparr>doc_json := snd (fread (doc_json s) (MAX_CORPUS_FILE_SZ E) fh),
               url_field := u, txt_field := t\<rparr>)"
proof -
  let ?s5 = "index_blob E Blob_index_url u (length u) False
            (s\<lparr>doc_json := snd (fread (doc_json s) (MAX_CORPUS_FILE_SZ E) fh),
               url_field := u, txt_field := t\<rparr>)"
  note a = indexer_index_json_accepted [OF assms(1-3), of lexer]
  show ?thesis
  proof (cases "index_text_field E t lexer ?s5")
    case (Inl e)
    with a assms(4) show ?thesis by simp
  next
    case (Inr s6)
    with a assms(4) have "s' = index_maintain E s6" by simp
    moreover from index_text_field_Inr [OF Inr] have "finished E t ?s5 s6" .
    ultimately show ?thesis by blast
  qed
qed

lemma accepted_document:
  assumes "length fh < MAX_CORPUS_FILE_SZ E"
    and "json_field E (envelope_seen E fh s) ''url'' = Some u"
    and "json_field E (envelope_seen E fh s) ''text'' = Some t"
    and "indexer_index_json E fh lexer s = Inr s'"
  shows "\<exists>ps ts ms.
        put_calls (offset_db s') = put_calls (offset_db s) @ ps
      \<and> map fst ps = next_keys s (length ps)
      \<and> added_terms (term_index s') = added_terms (term_index s) @ ts
      \<and> length ts = length ps
      \<and> math_index s' = math_index s @ ms
      \<and> (\<forall>m \<in> set ms. fst m = prev_docID s + 1)"
    and "doc_end_ids (term_index s') = doc_end_ids (term_index s) @ [prev_docID s + 1]"
    and "blob_index_txt s' = blob_index_txt s @ [(prev_docID s + 1, codec_compress E t (length t))]"
    and "blob_index_url s' = blob_index_url s @ [(prev_docID s + 1, u)]"
    and "prev_docID s' = prev_docID s + 1"
    and "cur_position s' = 0"
proof -
  from indexer_index_json_finished [OF assms] obtain s5 s6
    where f: "finished E t s5 s6" and s': "s' = index_maintain E s6"
      and s5: "s5 = index_blob E Blob_index_url u (length u) False
            (s\<lparr>doc_json := snd (fread (doc_json s) (MAX_CORPUS_FILE_SZ E) fh),
               url_field := u, txt_field := t\<rparr>)"
    by blast
  have fr: "offset_db s5 = offset_db s" "term_index s5 = term_index s"
    "math_index s5 = math_index s" "prev_docID s5 = prev_docID s"
    "cur_position s5 = cur_position s" "blob_index_txt s5 = blob_index_txt s"
    "blob_index_url s5 = blob_index_url s @ [(prev_docID s + 1, u)]"
    unfolding s5 by (simp_all add: index_blob_frame index_blob_url)
  have k: "next_keys s5 n = next_keys s n" for n
    by (simp add: next_keys_def fr)
  have lt: "strlen t = length t"
    using assms(3) by (rule strlen_json_field)
  from f show "\<exists>ps ts ms.
        put_calls (offset_db s') = put_calls (offset_db s) @ ps
      \<and> map fst ps = next_keys s (length ps)
      \<and> added_terms (term_index s') = added_terms (term_index s) @ ts
      \<and> length ts = length ps
      \<and> math_index s' = math_index s @ ms
      \<and> (\<forall>m \<in> set ms. fst m = prev_docID s + 1)"
    unfolding finished_def s' index_maintain_frame fr k by blast
  from f show "doc_end_ids (term_index s') = doc_end_ids (term_index s) @ [prev_docID s + 1]"
    unfolding finished_def s' index_maintain_frame fr by blast
  from f show "blob_index_txt s' = blob_index_txt s @ [(prev_docID s + 1, codec_compress E t (length t))]"
    unfolding finished_def s' index_maintain_frame fr lt by blast
  from f show "blob_index_url s' = blob_index_url s @ [(prev_docID s + 1, u)]"
    unfolding finished_def s' index_maintain_frame fr by simp
  from f show "prev_docID s' = prev_docID s + 1"
    unfolding finished_def s' index_maintain_frame fr by blast
  from f show "cur_position s' = 0"
    unfolding finished_def s' index_maintain_frame by blast
qed


lemma envelope_cases:
  obtains (rejected) "MAX_CORPUS_FILE_SZ E \<le> length fh
         \<or> json_field E (envelope_seen E fh s) ''url'' = None
         \<or> json_field E (envelope_seen E fh s) ''text'' = None"
  | (accepted) u t where "length fh < MAX_CORPUS_FILE_SZ E"
      "json_field E (envelope_seen E fh s) ''url'' = Some u"
      "json_field E (envelope_seen E fh s) ''text'' = Some t"
  by (cases "json_field E (envelope_seen E fh s) ''url''";
      cases "json_field E (envelope_seen E fh s) ''text''";
      cases "MAX_CORPUS_FILE_SZ E \<le> length fh") auto

lemma indexer_index_json_ids:
  assumes "indexer_index_json E fh lexer s = Inr s'"
  shows "(doc_end_ids (term_index s') = doc_end_ids (term_index s) \<and> prev_docID s' = prev_docID s
          \<and> cur_position s' = cur_position s)
       \<or> (doc_end_ids (term_index s') = doc_end_ids (term_index s) @ [prev_docID s + 1]
          \<and> prev_docID s' = prev_docID s + 1 \<and> cur_position s' = 0)"
proof (cases E fh s rule: envelope_cases)
  case rejected
  from indexer_index_json_rejected [OF this, of lexer] assms obtain b u t e
    where "s' = s\<lparr>doc_json := b, url_field := u, txt_field := t, stderr := e\<rparr>"
    by auto
  then show ?thesis by simp
next
  case (accepted u t)
  note d = accepted_document [OF accepted assms]
  from d(2,5,6) show ?thesis by blast
qed

lemma index_corpus_ids:
  "index_corpus E fhs lexer s = Inr s' \<Longrightarrow>
   \<exists>n \<le> length fhs.
     doc_end_ids (term_index s')
       = doc_end_ids (term_index s) @ map (\<lambda>i. prev_docID s + 1 + of_nat i) [0..<n]
   \<and> prev_docID s' = prev_docID s + of_nat n"
proof (induction fhs arbitrary: s)
  case Nil
  then show ?case by simp
next
  case (Cons fh fhs)
  from Cons.prems obtain s1 where j: "indexer_index_json E fh lexer s = Inr s1"
    and r: "index_corpus E fhs lexer s1 = Inr s'"
    by (auto split: sum.splits)
  from Cons.IH [OF r] obtain n where n: "n \<le> length fhs"
    and ids: "doc_end_ids (term_index s')
       = doc_end_ids (term_index s1) @ map (\<lambda>i. prev_docID s1 + 1 + of_nat i) [0..<n]"
    and p: "prev_docID s' = prev_docID s1 + of_nat n"
    by blast
  from indexer_index_json_ids [OF j] show ?case
  proof
    assume a: "doc_end_ids (term_index s1) = doc_end_ids (term_index s) \<and> prev_docID s1 = prev_docID s
          \<and> cur_position s1 = cur_position s"
    with n ids p have "n \<le> length (fh # fhs) \<and>
        doc_end_ids (term_index s')
          = doc_end_ids (term_index s) @ map (\<lambda>i. prev_docID s + 1 + of_nat i) [0..<n]
      \<and> prev_docID s' = prev_docID s + of_nat n"
      by simp
    then show ?thesis by blast
  next
    assume a: "doc_end_ids (term_index s1) = doc_end_ids (term_index s) @ [prev_docID s + 1]
          \<and> prev_docID s1 = prev_docID s + 1 \<and> cur_position s1 = 0"
    have "map (\<lambda>i. prev_docID s + 1 + of_nat i) [0..<Suc n]
        = (prev_docID s + 1) # map (\<lambda>i. prev_docID s1 + 1 + of_nat i) [0..<n]"
      using a by (simp only: map_upt_Suc) (simp add: ac_simps)
    with n ids p a have "Suc n \<le> length (fh # fhs) \<and>
        doc_end_ids (term_index s')
          = doc_end_ids (term_index s) @ map (\<lambda>i. prev_docID s + 1 + of_nat i) [0..<Suc n]
      \<and> prev_docID s' = prev_docID s + of_nat (Suc n)"
      by (simp add: ac_simps)
    then show ?thesis by blast
  qed
qed

subsection \<open>Consecutive docIDs\<close>

lemma unat_next_docID:
  fixes p :: "32 word"
  assumes "unat p + Suc i < 2 ^ 32"
  shows "unat (p + 1 + of_nat i) = unat p + Suc i"
proof -
  have e: "p + 1 + of_nat i = p + of_nat (Suc i)"
    by (simp add: ac_simps)
  have "unat (p + of_nat (Suc i)) = unat p + Suc i"
    using assms by (simp only: unat_word_ariths unat_of_nat) simp
  then show ?thesis
    by (simp only: e)
qed

lemma consecutive_sorted:
  fixes p :: "32 word"
  assumes "unat p + n < 2 ^ 32"
  shows "sorted_wrt (<) (map (\<lambda>i. p + 1 + of_nat i) [0..<n])"
proof -
  have "p + 1 + of_nat i < p + 1 + of_nat j" if "i < j" "j < n" for i j
  proof -
    have "unat (p + 1 + of_nat i) = unat p + Suc i" "unat (p + 1 + of_nat j) = unat p + Suc j"
      using that assms by (simp_all add: unat_next_docID)
    with that show ?thesis by (simp add: word_less_nat_alt)
  qed
  then show ?thesis
    by (simp add: sorted_wrt_iff_nth_less)
qed

subsection \<open>Slices of one token\<close>

lemma handle_math_slice:
  assumes "sl_type m = LEX_SLICE_TYPE_MATH"
  shows "indexer_handle_slice E m s =
     Inr (m\<lparr>mb_str := strip_math_tag E (mb_str m) (strlen (mb_str m))\<rparr>,
          index_tex E (strip_math_tag E (mb_str m) (strlen (mb_str m))) (sl_offset m)
            (strlen (mb_str m)) (s\<lparr>term_index := term_index s @ [Ti_doc_add ''math_exp'']\<rparr>))"
  using assms by (simp add: indexer_handle_slice_def Let_def)

lemma handle_token_slice:
  assumes "token_slice E a"
  shows "\<exists>a' s1 p t. indexer_handle_slice E a s = Inr (a', s1) \<and> lexed s s1 [p] [t] []"
proof (cases "sl_type a")
  case LEX_SLICE_TYPE_MATH
  with assms show ?thesis by (simp add: token_slice_def)
next
  case LEX_SLICE_TYPE_TEXT
  let ?low = "eng_to_lower_case E (mb_str a) (strlen (mb_str a))"
  from assms LEX_SLICE_TYPE_TEXT have "length (text_segment E ?low) = 1"
    by (simp add: token_slice_def)
  then obtain seg where seg: "text_segment E ?low = [seg]"
    by (cases "text_segment E ?low") auto
  let ?seg' = "seg\<lparr>seg_offset := seg_offset seg + sl_offset a\<rparr>"
  let ?s1 = "index_term E (seg_str ?seg') (seg_offset ?seg') (seg_n_bytes ?seg') s"
  have "indexer_handle_slice E a s = Inr (a\<lparr>mb_str := ?low\<rparr>, ?s1)"
    using LEX_SLICE_TYPE_TEXT seg
    by (simp add: indexer_handle_slice_def Let_def cb_index_term_def)
  with lexed_index_term [of s E "seg_str ?seg'" "seg_offset ?seg'" "seg_n_bytes ?seg'"]
  show ?thesis by blast
next
  case LEX_SLICE_TYPE_ENG_TEXT
  let ?low = "eng_to_lower_case E (mb_str a) (strlen (mb_str a))"
  let ?s1 = "index_term E ?low (sl_offset a) (strlen (mb_str a)) s"
  have "indexer_handle_slice E a s = Inr (a\<lparr>mb_str := ?low\<rparr>, ?s1)"
    using LEX_SLICE_TYPE_ENG_TEXT by (simp add: indexer_handle_slice_def Let_def)
  with lexed_index_term [of s E ?low "sl_offset a" "strlen (mb_str a)"]
  show ?thesis by blast
next
  case LEX_SLICE_TYPE_OTHER
  with assms show ?thesis by (simp add: token_slice_def)
qed

lemma math_between_tokens:
  assumes a: "token_slice E a" and m: "sl_type m = LEX_SLICE_TYPE_MATH" and b: "token_slice E b"
  shows "\<exists>s' pa ta k pb tb. run_lexer E [a, m, b] s = Inr s'
     \<and> lexed s s'
          [pa, (\<lparr>docID = prev_docID s + 1, pos = cur_position s + 1\<rparr>,
                \<lparr>offset = sl_offset m, n_bytes = of_nat (strlen (mb_str m))\<rparr>, k), pb]
          [ta, ''math_exp'', tb]
          (if code (tex_parse E (strip_math_tag E (mb_str m) (strlen (mb_str m))) 0 False)
              = PARSER_RETCODE_SUCC
           then [(prev_docID s + 1, cur_position s + 1,
                  subpaths (tex_parse E (strip_math_tag E (mb_str m) (strlen (mb_str m))) 0 False))]
           else [])"
proof -
  let ?body = "strip_math_tag E (mb_str m) (strlen (mb_str m))"
  from handle_token_slice [OF a, of s] obtain a' s1 pa ta
    where h1: "indexer_handle_slice E a s = Inr (a', s1)" and l1: "lexed s s1 [pa] [ta] []"
    by blast
  then have c1: "cur_position s1 = cur_position s + 1" and p1: "prev_docID s1 = prev_docID s"
    by (simp_all add: lexed_def)
  let ?s2 = "index_tex E ?body (sl_offset m) (strlen (mb_str m))
      (s1\<lparr>term_index := term_index s1 @ [Ti_doc_add ''math_exp'']\<rparr>)"
  note h2 = handle_math_slice [OF m, of E s1]
  note l2 = lexed_math_slice [of s1 E ?body "sl_offset m" "strlen (mb_str m)" "''math_exp''"]
  from handle_token_slice [OF b, of ?s2] obtain b' s3 pb tb
    where h3: "indexer_handle_slice E b ?s2 = Inr (b', s3)" and l3: "lexed ?s2 s3 [pb] [tb] []"
    by blast
  have r: "run_lexer E [a, m, b] s = Inr s3"
    using h1 h2 h3 by simp
  from lexed_trans [OF lexed_trans [OF l1 l2] l3]
  have "lexed s s3
          [pa, (\<lparr>docID = prev_docID s + 1, pos = cur_position s + 1\<rparr>,
                \<lparr>offset = sl_offset m, n_bytes = of_nat (strlen (mb_str m))\<rparr>,
                keyval_db_put E (offset_db s1) \<lparr>docID = prev_docID s + 1, pos = cur_position s + 1\<rparr>
                  \<lparr>offset = sl_offset m, n_bytes = of_nat (strlen (mb_str m))\<rparr>), pb]
          [ta, ''math_exp'', tb]
          (if code (tex_parse E ?body 0 False) = PARSER_RETCODE_SUCC
           then [(prev_docID s + 1, cur_position s + 1, subpaths (tex_parse E ?body 0 False))]
           else [])"
    unfolding c1 p1 by simp
  with r show ?thesis by blast
qed

subsection \<open>The calls on subpaths\<close>

lemma paired_append: "paired cs \<Longrightarrow> paired cs' \<Longrightarrow> paired (cs @ cs')"
  by (induction cs rule: paired.induct) simp_all

lemma sp_adds_append: "sp_adds (cs @ cs') = sp_adds cs @ sp_adds cs'"
  by (induction cs rule: sp_adds.induct) simp_all

lemma sp_releases_append: "sp_releases (cs @ cs') = sp_releases cs @ sp_releases cs'"
  by (induction cs rule: sp_releases.induct) simp_all

lemma subpaths_calls_save_offset:
  "subpaths_calls (snd (save_offset E ofs n s)) = subpaths_calls s"
  by (simp add: save_offset_def Let_def)

lemma subpaths_calls_index_term:
  "subpaths_calls (index_term E t ofs n s) = subpaths_calls s"
  by (simp add: index_term_def Let_def subpaths_calls_save_offset)

lemma subpaths_calls_index_tex:
  "subpaths_calls (index_tex E tex ofs n s) =
     (if code (tex_parse E tex 0 False) = PARSER_RETCODE_SUCC
      then subpaths_calls s
        @ [Sp_math_index_add_tex (prev_docID s + 1) (cur_position s)
             (subpaths (tex_parse E tex 0 False))
             (math_index_add_tex E (math_index s) (prev_docID s + 1) (cur_position s)
                (subpaths (tex_parse E tex 0 False))),
           Sp_release (subpaths (tex_parse E tex 0 False))]
      else subpaths_calls s)"
  by (simp add: index_tex_def Let_def subpaths_calls_save_offset)

lemma handed_over_refl: "handed_over s s []"
  by (simp add: handed_over_def)

lemma handed_over_trans:
  assumes "handed_over s s1 cs1" and "handed_over s1 s2 cs2"
  shows "handed_over s s2 (cs1 @ cs2)"
  using assms
  by (simp add: handed_over_def paired_append sp_adds_append sp_releases_append)

lemma handed_over_index_term: "handed_over s (index_term E t ofs n s) []"
  by (simp add: handed_over_def subpaths_calls_index_term index_term_frame)

lemma handed_over_index_tex:
  "\<exists>cs. handed_over s (index_tex E tex ofs n (s\<lparr>term_index := term_index s @ [Ti_doc_add t]\<rparr>)) cs"
proof (cases "code (tex_parse E tex 0 False) = PARSER_RETCODE_SUCC")
  case True
  then have "handed_over s (index_tex E tex ofs n (s\<lparr>term_index := term_index s @ [Ti_doc_add t]\<rparr>))
      [Sp_math_index_add_tex (prev_docID s + 1) (cur_position s)
             (subpaths (tex_parse E tex 0 False))
             (math_index_add_tex E (math_index s) (prev_docID s + 1) (cur_position s)
                (subpaths (tex_parse E tex 0 False))),
           Sp_release (subpaths (tex_parse E tex 0 False))]"
    by (simp add: handed_over_def subpaths_calls_index_tex index_tex_math)
  then show ?thesis by blast
next
  case False
  then have "handed_over s (index_tex E tex ofs n (s\<lparr>term_index := term_index s @ [Ti_doc_add t]\<rparr>)) []"
    by (simp add: handed_over_def subpaths_calls_index_tex index_tex_math)
  then show ?thesis by blast
qed

lemma handed_over_foreach:
  "handed_over s (snd (list_foreach li (cb_index_term E so) s)) []"
proof (induction li arbitrary: s)
  case Nil
  show ?case by (simp add: handed_over_refl)
next
  case (Cons seg li)
  let ?s1 = "snd (cb_index_term E so seg s)"
  have 1: "handed_over s ?s1 []"
    by (simp add: cb_index_term_def Let_def handed_over_index_term)
  from handed_over_trans [OF 1 Cons.IH [of ?s1]] show ?case
    by (simp only: list_foreach_snd append_Nil)
qed

lemma handed_over_handle_slice:
  assumes "indexer_handle_slice E sl s = Inr (sl', s')"
  shows "\<exists>cs. handed_over s s' cs"
proof (cases "sl_type sl")
  case LEX_SLICE_TYPE_MATH
  then have "s' = index_tex E (strip_math_tag E (mb_str sl) (strlen (mb_str sl))) (sl_offset sl)
      (strlen (mb_str sl)) (s\<lparr>term_index := term_index s @ [Ti_doc_add ''math_exp'']\<rparr>)"
    using assms by (simp add: indexer_handle_slice_def Let_def)
  then show ?thesis
    using handed_over_index_tex by blast
next
  case LEX_SLICE_TYPE_TEXT
  then have "s' = snd (list_foreach
      (text_segment E (eng_to_lower_case E (mb_str sl) (strlen (mb_str sl))))
      (cb_index_term E (sl_offset sl)) s)"
    using assms by (auto simp: indexer_handle_slice_def Let_def split: prod.splits)
  then show ?thesis
    using handed_over_foreach by blast
next
  case LEX_SLICE_TYPE_ENG_TEXT
  then have "s' = index_term E (eng_to_lower_case E (mb_str sl) (strlen (mb_str sl)))
      (sl_offset sl) (strlen (mb_str sl)) s"
    using assms by (simp add: indexer_handle_slice_def Let_def)
  then show ?thesis
    using handed_over_index_term by blast
next
  case LEX_SLICE_TYPE_OTHER
  then show ?thesis
    using assms by (simp add: indexer_handle_slice_def Let_def)
qed

lemma handed_over_run_lexer:
  "run_lexer E sls s = Inr s' \<Longrightarrow> \<exists>cs. handed_over s s' cs"
proof (induction sls arbitrary: s)
  case Nil
  then show ?case using handed_over_refl [of s] by auto
next
  case (Cons sl sls)
  then obtain sl' s1 where h: "indexer_handle_slice E sl s = Inr (sl', s1)"
    and r: "run_lexer E sls s1 = Inr s'"
    by (auto split: sum.splits)
  from handed_over_handle_slice [OF h] obtain cs1 where 1: "handed_over s s1 cs1" by blast
  from Cons.IH [OF r] obtain cs2 where 2: "handed_over s1 s' cs2" by blast
  from handed_over_trans [OF 1 2] show ?case by blast
qed

section \<open>The claims\<close>

subsection \<open>C1: the docID assertion and the reset of the position\<close>

text \<open>
  C1. Whenever \<^verbatim>\<open>index_text_field\<close> returns, the docID that \<^verbatim>\<open>term_index_doc_end\<close> returned
  is \<^verbatim>\<open>prev_docID + 1\<close>, \<^verbatim>\<open>prev_docID\<close> has been set to it and the position counter is 0.
  Once the memory stream is open and the lexer has returned, a docID other than
  \<^verbatim>\<open>prev_docID + 1\<close> fails the assertion, which ends the process; the matching docID gives
  the state with \<^verbatim>\<open>prev_docID\<close> advanced and the position counter reset. So a call of
  \<^verbatim>\<open>indexer_index_json\<close> that starts at position 0 and returns ends at position 0: every
  document begins with position 0.
\<close>

theorem docID_checked_and_position_reset:
  "(index_text_field E txt lexer s = Inr s' \<longrightarrow>
      finalized s s' = [prev_docID s + 1] \<and> prev_docID s' = prev_docID s + 1 \<and> cur_position s' = 0)
   \<and> (fmemopen E txt (strlen txt)
      \<and> run_lexer E (lexer (take (strlen txt) txt)) (s\<lparr>term_index := term_index s @ [Ti_doc_begin]\<rparr>)
          = Inr sa \<longrightarrow>
      index_text_field E txt lexer s =
        (if term_index_doc_end E (term_index sa) = prev_docID s + 1
         then Inr ((index_blob E Blob_index_txt txt (strlen txt) True sa)
                \<lparr>term_index := term_index sa @ [Ti_doc_end (prev_docID s + 1)],
                 prev_docID := prev_docID s + 1, cur_position := 0\<rparr>)
         else Inl Assert_failed))
   \<and> (cur_position s = 0 \<and> indexer_index_json E fh lexer s = Inr s1 \<longrightarrow> cur_position s1 = 0)"
proof -
  have 1: "finalized s s' = [prev_docID s + 1] \<and> prev_docID s' = prev_docID s + 1 \<and> cur_position s' = 0"
    if "index_text_field E txt lexer s = Inr s'"
    using index_text_field_Inr [OF that] by (simp add: finished_def finalized_def)
  have 2: "index_text_field E txt lexer s =
        (if term_index_doc_end E (term_index sa) = prev_docID s + 1
         then Inr ((index_blob E Blob_index_txt txt (strlen txt) True sa)
                \<lparr>term_index := term_index sa @ [Ti_doc_end (prev_docID s + 1)],
                 prev_docID := prev_docID s + 1, cur_position := 0\<rparr>)
         else Inl Assert_failed)"
    if f: "fmemopen E txt (strlen txt)"
      and r: "run_lexer E (lexer (take (strlen txt) txt)) (s\<lparr>term_index := term_index s @ [Ti_doc_begin]\<rparr>)
          = Inr sa"
  proof -
    from lexed_run_lexer [OF r] have "prev_docID sa = prev_docID s"
      by (auto simp: lexed_def)
    with index_text_field_unfold [where lexer = lexer and s = s, OF f r] show ?thesis
      by simp
  qed
  have 3: "cur_position s1 = 0" if "cur_position s = 0" "indexer_index_json E fh lexer s = Inr s1"
    using indexer_index_json_ids [OF that(2)] that(1) by auto
  from 1 2 3 show ?thesis by blast
qed

theorem docID_checked_and_position_reset_witness:
  "index_text_field demo_extern demo_text demo_lexer demo_init
     = Inr (projr (index_text_field demo_extern demo_text demo_lexer demo_init))
   \<and> finalized demo_init (projr (index_text_field demo_extern demo_text demo_lexer demo_init)) = [1]
   \<and> prev_docID (projr (index_text_field demo_extern demo_text demo_lexer demo_init)) = 1
   \<and> cur_position (projr (index_text_field demo_extern demo_text demo_lexer demo_init)) = 0
   \<and> fmemopen mismatch_extern demo_text (strlen demo_text)
   \<and> run_lexer mismatch_extern (demo_lexer (take (strlen demo_text) demo_text))
        (demo_init\<lparr>term_index := term_index demo_init @ [Ti_doc_begin]\<rparr>)
       = Inr (projr (run_lexer mismatch_extern (demo_lexer (take (strlen demo_text) demo_text))
                (demo_init\<lparr>term_index := term_index demo_init @ [Ti_doc_begin]\<rparr>)))
   \<and> term_index_doc_end mismatch_extern
        (term_index (projr (run_lexer mismatch_extern (demo_lexer (take (strlen demo_text) demo_text))
                (demo_init\<lparr>term_index := term_index demo_init @ [Ti_doc_begin]\<rparr>)))) = 7
   \<and> index_text_field mismatch_extern demo_text demo_lexer demo_init = Inl Assert_failed
   \<and> cur_position demo_init = 0
   \<and> indexer_index_json demo_extern demo_envelope demo_lexer demo_init
       = Inr (projr (indexer_index_json demo_extern demo_envelope demo_lexer demo_init))
   \<and> cur_position (projr (indexer_index_json demo_extern demo_envelope demo_lexer demo_init)) = 0"
proof -
  let ?s' = "projr (index_text_field demo_extern demo_text demo_lexer demo_init)"
  let ?s1 = "projr (indexer_index_json demo_extern demo_envelope demo_lexer demo_init)"
  let ?sa = "projr (run_lexer mismatch_extern (demo_lexer (take (strlen demo_text) demo_text))
                (demo_init\<lparr>term_index := term_index demo_init @ [Ti_doc_begin]\<rparr>))"
  have a: "index_text_field demo_extern demo_text demo_lexer demo_init = Inr ?s'"
    by (simp add: demo_defs eval_defs)
  have f: "fmemopen mismatch_extern demo_text (strlen demo_text)"
    by (simp add: demo_defs)
  have r: "run_lexer mismatch_extern (demo_lexer (take (strlen demo_text) demo_text))
        (demo_init\<lparr>term_index := term_index demo_init @ [Ti_doc_begin]\<rparr>) = Inr ?sa"
    by (simp add: demo_defs eval_defs)
  have d: "term_index_doc_end mismatch_extern (term_index ?sa) = 7"
    by (simp add: mismatch_extern_def)
  note t = docID_checked_and_position_reset [of demo_extern demo_text demo_lexer demo_init "?s'"]
  note u = docID_checked_and_position_reset [of mismatch_extern demo_text demo_lexer demo_init _ "?sa"]
  from t a have 1: "finalized demo_init ?s' = [prev_docID demo_init + 1]"
    "prev_docID ?s' = prev_docID demo_init + 1" "cur_position ?s' = 0"
    by blast+
  from u f r have "index_text_field mismatch_extern demo_text demo_lexer demo_init =
        (if term_index_doc_end mismatch_extern (term_index ?sa) = prev_docID demo_init + 1
         then Inr ((index_blob mismatch_extern Blob_index_txt demo_text (strlen demo_text) True ?sa)
                \<lparr>term_index := term_index ?sa @ [Ti_doc_end (prev_docID demo_init + 1)],
                 prev_docID := prev_docID demo_init + 1, cur_position := 0\<rparr>)
         else Inl Assert_failed)"
    by blast
  then have 2: "index_text_field mismatch_extern demo_text demo_lexer demo_init = Inl Assert_failed"
    unfolding d by (simp add: demo_init_def)
  from 1 have 3: "finalized demo_init ?s' = [1]" "prev_docID ?s' = 1"
    by (simp_all add: demo_init_def)
  have z: "cur_position demo_init = 0"
    by (simp add: demo_init_def)
  have j: "indexer_index_json demo_extern demo_envelope demo_lexer demo_init = Inr ?s1"
    by (simp add: demo_defs eval_defs)
  from docID_checked_and_position_reset [of demo_extern _ demo_lexer demo_init _ _ demo_envelope "?s1"]
    z j
  have 4: "cur_position ?s1 = 0"
    by blast
  from a 3 1(3) f r d 2 z j 4 show ?thesis by blast
qed

subsection \<open>C2: one offset put for each position\<close>

text \<open>
  C2, as amended. In both token paths (\<^verbatim>\<open>index_term\<close> and \<^verbatim>\<open>index_tex\<close>) exactly one
  \<^verbatim>\<open>keyval_db_put\<close> is issued, with the key (\<^verbatim>\<open>prev_docID + 1\<close>, the position counter as it is
  before the increment), and the counter is then incremented once. So over the slices of a
  document the keys of the puts are the consecutive positions taken, the counter ends that
  many positions further, and the term index has received one term for each of them. An
  entry is created only by a put that succeeds: when no put of the document fails, the
  entries created are exactly one for each position taken. The keys of a document are
  pairwise distinct as long as it takes no more than \<open>2 ^ 32\<close> positions.
\<close>

theorem one_offset_put_per_position:
  "put_calls (offset_db (index_term E t ofs n s))
     = put_calls (offset_db s)
       @ [(\<lparr>docID = prev_docID s + 1, pos = cur_position s\<rparr>, \<lparr>offset = ofs, n_bytes = of_nat n\<rparr>,
           keyval_db_put E (offset_db s) \<lparr>docID = prev_docID s + 1, pos = cur_position s\<rparr>
             \<lparr>offset = ofs, n_bytes = of_nat n\<rparr>)]
   \<and> cur_position (index_term E t ofs n s) = cur_position s + 1
   \<and> put_calls (offset_db (index_tex E tex ofs n s))
     = put_calls (offset_db s)
       @ [(\<lparr>docID = prev_docID s + 1, pos = cur_position s\<rparr>, \<lparr>offset = ofs, n_bytes = of_nat n\<rparr>,
           keyval_db_put E (offset_db s) \<lparr>docID = prev_docID s + 1, pos = cur_position s\<rparr>
             \<lparr>offset = ofs, n_bytes = of_nat n\<rparr>)]
   \<and> cur_position (index_tex E tex ofs n s) = cur_position s + 1
   \<and> (run_lexer E sls s = Inr s' \<longrightarrow>
        put_calls (offset_db s') = put_calls (offset_db s) @ new_puts s s'
      \<and> map fst (new_puts s s') = next_keys s (length (new_puts s s'))
      \<and> cur_position s' = cur_position s + of_nat (length (new_puts s s'))
      \<and> length (added_terms (term_index s'))
          = length (added_terms (term_index s)) + length (new_puts s s')
      \<and> ((\<forall>p \<in> set (new_puts s s'). \<not> snd (snd p)) \<longrightarrow>
           offset_entries (offset_db s')
             = offset_entries (offset_db s) @ map (\<lambda>p. (fst p, fst (snd p))) (new_puts s s'))
      \<and> (length (new_puts s s') \<le> 2 ^ 32 \<longrightarrow> distinct (map fst (new_puts s s'))))"
proof -
  have a: "put_calls (offset_db (index_term E t ofs n s))
     = put_calls (offset_db s)
       @ [(\<lparr>docID = prev_docID s + 1, pos = cur_position s\<rparr>, \<lparr>offset = ofs, n_bytes = of_nat n\<rparr>,
           keyval_db_put E (offset_db s) \<lparr>docID = prev_docID s + 1, pos = cur_position s\<rparr>
             \<lparr>offset = ofs, n_bytes = of_nat n\<rparr>)]"
    by (simp add: index_term_db put_calls_append)
  have b: "put_calls (offset_db (index_tex E tex ofs n s))
     = put_calls (offset_db s)
       @ [(\<lparr>docID = prev_docID s + 1, pos = cur_position s\<rparr>, \<lparr>offset = ofs, n_bytes = of_nat n\<rparr>,
           keyval_db_put E (offset_db s) \<lparr>docID = prev_docID s + 1, pos = cur_position s\<rparr>
             \<lparr>offset = ofs, n_bytes = of_nat n\<rparr>)]"
    by (simp add: index_tex_db put_calls_append)
  have c: "distinct (map fst (new_puts s s'))"
    if "run_lexer E sls s = Inr s'" "length (new_puts s s') \<le> 2 ^ 32"
    using run_lexer_positions [OF that(1)] next_keys_distinct [OF that(2), of s] by simp
  have a': "cur_position (index_term E t ofs n s) = cur_position s + 1"
    and b': "cur_position (index_tex E tex ofs n s) = cur_position s + 1"
    by (simp_all only: index_term_frame index_tex_frame)
  from a a' b b' c run_lexer_positions [of E sls s s'] show ?thesis
    by blast
qed

theorem one_offset_put_per_position_witness:
  "run_lexer demo_extern (demo_lexer demo_text) demo_init = Inr (demo_lexed demo_extern)
   \<and> map (\<lambda>p. snd (snd p)) (new_puts demo_init (demo_lexed demo_extern)) = [False, False, False]
   \<and> cur_position (demo_lexed demo_extern) = 3
   \<and> map fst (offset_entries (offset_db (demo_lexed demo_extern)))
       = [\<lparr>docID = 1, pos = 0\<rparr>, \<lparr>docID = 1, pos = 1\<rparr>, \<lparr>docID = 1, pos = 2\<rparr>]
   \<and> length (new_puts demo_init (demo_lexed demo_extern)) \<le> 2 ^ 32
   \<and> distinct (map fst (new_puts demo_init (demo_lexed demo_extern)))"
proof -
  have r: "run_lexer demo_extern (demo_lexer demo_text) demo_init = Inr (demo_lexed demo_extern)"
    by (simp add: demo_lexed_def demo_defs eval_defs)
  have f: "map (\<lambda>p. snd (snd p)) (new_puts demo_init (demo_lexed demo_extern)) = [False, False, False]"
    by (simp add: demo_lexed_def demo_defs eval_defs)
  then have a: "\<forall>p \<in> set (new_puts demo_init (demo_lexed demo_extern)). \<not> snd (snd p)"
    by (metis (no_types, lifting) imageI insert_iff list.set(1) list.set(2) list.set_map empty_iff)
  have l: "length (new_puts demo_init (demo_lexed demo_extern)) = 3"
    using f by (metis length_map length_Cons list.size(3) numeral_3_eq_3)
  from one_offset_put_per_position [where E = demo_extern and s = demo_init
      and sls = "demo_lexer demo_text" and s' = "demo_lexed demo_extern"] r a
  have c: "cur_position (demo_lexed demo_extern)
        = cur_position demo_init + of_nat (length (new_puts demo_init (demo_lexed demo_extern)))"
    and e: "offset_entries (offset_db (demo_lexed demo_extern))
        = offset_entries (offset_db demo_init)
          @ map (\<lambda>p. (fst p, fst (snd p))) (new_puts demo_init (demo_lexed demo_extern))"
    and k: "map fst (new_puts demo_init (demo_lexed demo_extern))
        = next_keys demo_init (length (new_puts demo_init (demo_lexed demo_extern)))"
    and d: "length (new_puts demo_init (demo_lexed demo_extern)) \<le> 2 ^ 32 \<longrightarrow>
        distinct (map fst (new_puts demo_init (demo_lexed demo_extern)))"
    by blast+
  have b: "length (new_puts demo_init (demo_lexed demo_extern)) \<le> 2 ^ 32"
    unfolding l by simp
  with d have d': "distinct (map fst (new_puts demo_init (demo_lexed demo_extern)))"
    by blast
  have c': "cur_position (demo_lexed demo_extern) = 3"
    using c l by (simp add: demo_init_def)
  have "map fst (offset_entries (offset_db (demo_lexed demo_extern)))
      = next_keys demo_init 3"
    using e k l by (simp add: demo_init_def offset_entries_def o_def)
  then have e': "map fst (offset_entries (offset_db (demo_lexed demo_extern)))
       = [\<lparr>docID = 1, pos = 0\<rparr>, \<lparr>docID = 1, pos = 1\<rparr>, \<lparr>docID = 1, pos = 2\<rparr>]"
    by (simp add: next_keys_def demo_init_def upt_rec)
  from r f c' e' b d' show ?thesis by blast
qed

text \<open>
  The claim as first stated counts entries created, not puts issued. With an offset store
  that refuses the puts, the three tokens of the scenario take three positions and no
  entry is created.
\<close>

theorem positions_without_offset_entries:
  "cur_position (demo_lexed failing_extern) = 3
   \<and> length (offset_entries (offset_db (demo_lexed failing_extern))) = 0"
  by (simp add: demo_lexed_def demo_defs eval_defs)

subsection \<open>C3: a math slice\<close>

text \<open>
  C3. Given a math slice, \<^verbatim>\<open>indexer_handle_slice\<close> first adds the fixed term \<^verbatim>\<open>math_exp\<close> to
  the term index, then strips the math tag and gives the stripped string, the offset of
  the slice and its length before stripping to \<^verbatim>\<open>index_tex\<close>; the slice takes exactly one
  position. So a math slice between two slices of one plain-text token each takes three
  positions together with them; \<^verbatim>\<open>math_exp\<close> is the second of the three terms added, and
  the second position is the one of the offset put that carries the offset and length of
  the math slice and of the math index entry, when the expression parses.
\<close>

theorem math_slice_takes_one_position:
  "(sl_type m = LEX_SLICE_TYPE_MATH \<longrightarrow>
      indexer_handle_slice E m s =
        Inr (m\<lparr>mb_str := strip_math_tag E (mb_str m) (strlen (mb_str m))\<rparr>,
             index_tex E (strip_math_tag E (mb_str m) (strlen (mb_str m))) (sl_offset m)
               (strlen (mb_str m)) (s\<lparr>term_index := term_index s @ [Ti_doc_add ''math_exp'']\<rparr>))
    \<and> cur_position (snd (projr (indexer_handle_slice E m s))) = cur_position s + 1
    \<and> added_terms (term_index (snd (projr (indexer_handle_slice E m s))))
        = added_terms (term_index s) @ [''math_exp''])
   \<and> (token_slice E a \<and> sl_type m = LEX_SLICE_TYPE_MATH \<and> token_slice E b \<longrightarrow>
      (\<exists>s' ta tb. run_lexer E [a, m, b] s = Inr s'
         \<and> cur_position s' = cur_position s + 3
         \<and> added_terms (term_index s') = added_terms (term_index s) @ [ta, ''math_exp'', tb]
         \<and> map fst (new_puts s s') = next_keys s 3
         \<and> fst (new_puts s s' ! 1) = \<lparr>docID = prev_docID s + 1, pos = cur_position s + 1\<rparr>
         \<and> fst (snd (new_puts s s' ! 1))
             = \<lparr>offset = sl_offset m, n_bytes = of_nat (strlen (mb_str m))\<rparr>
         \<and> new_math s s'
             = (if code (tex_parse E (strip_math_tag E (mb_str m) (strlen (mb_str m))) 0 False)
                     = PARSER_RETCODE_SUCC
                then [(prev_docID s + 1, cur_position s + 1,
                       subpaths (tex_parse E (strip_math_tag E (mb_str m) (strlen (mb_str m))) 0 False))]
                else [])))"
proof -
  have 1: "indexer_handle_slice E m s =
        Inr (m\<lparr>mb_str := strip_math_tag E (mb_str m) (strlen (mb_str m))\<rparr>,
             index_tex E (strip_math_tag E (mb_str m) (strlen (mb_str m))) (sl_offset m)
               (strlen (mb_str m)) (s\<lparr>term_index := term_index s @ [Ti_doc_add ''math_exp'']\<rparr>))
    \<and> cur_position (snd (projr (indexer_handle_slice E m s))) = cur_position s + 1
    \<and> added_terms (term_index (snd (projr (indexer_handle_slice E m s))))
        = added_terms (term_index s) @ [''math_exp'']"
    if "sl_type m = LEX_SLICE_TYPE_MATH"
    using handle_math_slice [OF that, of E s]
    by (simp add: index_tex_frame added_terms_append)
  have 2: "\<exists>s' ta tb. run_lexer E [a, m, b] s = Inr s'
         \<and> cur_position s' = cur_position s + 3
         \<and> added_terms (term_index s') = added_terms (term_index s) @ [ta, ''math_exp'', tb]
         \<and> map fst (new_puts s s') = next_keys s 3
         \<and> fst (new_puts s s' ! 1) = \<lparr>docID = prev_docID s + 1, pos = cur_position s + 1\<rparr>
         \<and> fst (snd (new_puts s s' ! 1))
             = \<lparr>offset = sl_offset m, n_bytes = of_nat (strlen (mb_str m))\<rparr>
         \<and> new_math s s'
             = (if code (tex_parse E (strip_math_tag E (mb_str m) (strlen (mb_str m))) 0 False)
                     = PARSER_RETCODE_SUCC
                then [(prev_docID s + 1, cur_position s + 1,
                       subpaths (tex_parse E (strip_math_tag E (mb_str m) (strlen (mb_str m))) 0 False))]
                else [])"
    if t: "token_slice E a" "sl_type m = LEX_SLICE_TYPE_MATH" "token_slice E b"
  proof -
    from math_between_tokens [OF t, of s] obtain s' pa ta k pb tb
      where r: "run_lexer E [a, m, b] s = Inr s'"
        and l: "lexed s s'
          [pa, (\<lparr>docID = prev_docID s + 1, pos = cur_position s + 1\<rparr>,
                \<lparr>offset = sl_offset m, n_bytes = of_nat (strlen (mb_str m))\<rparr>, k), pb]
          [ta, ''math_exp'', tb]
          (if code (tex_parse E (strip_math_tag E (mb_str m) (strlen (mb_str m))) 0 False)
              = PARSER_RETCODE_SUCC
           then [(prev_docID s + 1, cur_position s + 1,
                  subpaths (tex_parse E (strip_math_tag E (mb_str m) (strlen (mb_str m))) 0 False))]
           else [])"
      by blast
    note n = lexed_new_puts [OF l]
    have c: "cur_position s' = cur_position s + 3"
      using l by (simp add: lexed_def)
    have "map fst (new_puts s s') = next_keys s (length (new_puts s s'))"
      using l by (simp only: n(2) lexed_def)
    then have k: "map fst (new_puts s s') = next_keys s 3"
      by (simp add: n(2) numeral_3_eq_3)
    have k1: "fst (new_puts s s' ! 1) = \<lparr>docID = prev_docID s + 1, pos = cur_position s + 1\<rparr>"
      by (simp add: n(2))
    have v1: "fst (snd (new_puts s s' ! 1))
        = \<lparr>offset = sl_offset m, n_bytes = of_nat (strlen (mb_str m))\<rparr>"
      by (simp add: n(2))
    from r c n(5) k k1 v1 n(3) show ?thesis
      by blast
  qed
  from 1 2 show ?thesis by blast
qed

theorem math_slice_takes_one_position_witness:
  "token_slice demo_extern \<lparr>mb_str = ''The '', sl_offset = 0, sl_type = LEX_SLICE_TYPE_ENG_TEXT\<rparr>
   \<and> sl_type \<lparr>mb_str = ''<math>x^2</math>'', sl_offset = 4, sl_type = LEX_SLICE_TYPE_MATH\<rparr>
       = LEX_SLICE_TYPE_MATH
   \<and> token_slice demo_extern \<lparr>mb_str = '' is positive'', sl_offset = 20, sl_type = LEX_SLICE_TYPE_TEXT\<rparr>
   \<and> cur_position (snd (projr (indexer_handle_slice demo_extern
         \<lparr>mb_str = ''<math>x^2</math>'', sl_offset = 4, sl_type = LEX_SLICE_TYPE_MATH\<rparr> demo_init))) = 1
   \<and> added_terms (term_index (snd (projr (indexer_handle_slice demo_extern
         \<lparr>mb_str = ''<math>x^2</math>'', sl_offset = 4, sl_type = LEX_SLICE_TYPE_MATH\<rparr> demo_init))))
       = [''math_exp'']
   \<and> (\<exists>s' ta tb. run_lexer demo_extern (demo_lexer demo_text) demo_init = Inr s'
         \<and> cur_position s' = 3
         \<and> added_terms (term_index s') = [ta, ''math_exp'', tb]
         \<and> fst (new_puts demo_init s' ! 1) = \<lparr>docID = 1, pos = 1\<rparr>
         \<and> fst (snd (new_puts demo_init s' ! 1)) = \<lparr>offset = 4, n_bytes = 16\<rparr>
         \<and> new_math demo_init s' = [(1, 1, [''x/base'', ''2/sup''])])"
proof -
  let ?a = "\<lparr>mb_str = ''The '', sl_offset = 0, sl_type = LEX_SLICE_TYPE_ENG_TEXT\<rparr>"
  let ?m = "\<lparr>mb_str = ''<math>x^2</math>'', sl_offset = 4, sl_type = LEX_SLICE_TYPE_MATH\<rparr>"
  let ?b = "\<lparr>mb_str = '' is positive'', sl_offset = 20, sl_type = LEX_SLICE_TYPE_TEXT\<rparr>"
  have 1: "token_slice demo_extern ?a"
    by (simp add: token_slice_def)
  have 2: "sl_type ?m = LEX_SLICE_TYPE_MATH"
    by simp
  have 3: "token_slice demo_extern ?b"
    by (simp add: demo_defs eval_defs)
  have d: "demo_lexer demo_text = [?a, ?m, ?b]"
    by (simp add: demo_lexer_def)
  have p: "code (tex_parse demo_extern
        (strip_math_tag demo_extern (mb_str ?m) (strlen (mb_str ?m))) 0 False) = PARSER_RETCODE_SUCC"
    "subpaths (tex_parse demo_extern
        (strip_math_tag demo_extern (mb_str ?m) (strlen (mb_str ?m))) 0 False) = [''x/base'', ''2/sup'']"
    by (simp_all add: demo_defs eval_defs)
  have i: "cur_position demo_init = 0" "prev_docID demo_init = 0"
    "added_terms (term_index demo_init) = []"
    by (simp_all add: demo_init_def)
  have n: "of_nat (strlen (mb_str ?m)) = (16 :: 32 word)" "sl_offset ?m = 4"
    by (simp_all add: eval_defs)
  note t = math_slice_takes_one_position [of ?m demo_extern demo_init ?a ?b,
      THEN conjunct2, THEN mp, OF conjI [OF 1 conjI [OF 2 3]]]
  then obtain s' ta tb where r: "run_lexer demo_extern [?a, ?m, ?b] demo_init = Inr s'"
    and c: "cur_position s' = cur_position demo_init + 3"
    and a: "added_terms (term_index s') = added_terms (term_index demo_init) @ [ta, ''math_exp'', tb]"
    and k: "fst (new_puts demo_init s' ! 1)
        = \<lparr>docID = prev_docID demo_init + 1, pos = cur_position demo_init + 1\<rparr>"
    and v: "fst (snd (new_puts demo_init s' ! 1))
        = \<lparr>offset = sl_offset ?m, n_bytes = of_nat (strlen (mb_str ?m))\<rparr>"
    and x: "new_math demo_init s'
        = (if code (tex_parse demo_extern
                 (strip_math_tag demo_extern (mb_str ?m) (strlen (mb_str ?m))) 0 False)
               = PARSER_RETCODE_SUCC
           then [(prev_docID demo_init + 1, cur_position demo_init + 1,
                  subpaths (tex_parse demo_extern
                    (strip_math_tag demo_extern (mb_str ?m) (strlen (mb_str ?m))) 0 False))]
           else [])"
    by blast
  have r': "run_lexer demo_extern (demo_lexer demo_text) demo_init = Inr s'"
    using r by (simp only: d)
  have c': "cur_position s' = 3"
    using c by (simp only: i) simp
  have a': "added_terms (term_index s') = [ta, ''math_exp'', tb]"
    using a by (simp only: i) simp
  have k': "fst (new_puts demo_init s' ! 1) = \<lparr>docID = 1, pos = 1\<rparr>"
    using k by (simp only: i) simp
  have v': "fst (snd (new_puts demo_init s' ! 1)) = \<lparr>offset = 4, n_bytes = 16\<rparr>"
    using v by (simp only: n)
  have x': "new_math demo_init s' = [(1, 1, [''x/base'', ''2/sup''])]"
    using x by (simp only: p i) simp
  from r' c' a' k' v' x'
  have "\<exists>s' ta tb. run_lexer demo_extern (demo_lexer demo_text) demo_init = Inr s'
         \<and> cur_position s' = 3
         \<and> added_terms (term_index s') = [ta, ''math_exp'', tb]
         \<and> fst (new_puts demo_init s' ! 1) = \<lparr>docID = 1, pos = 1\<rparr>
         \<and> fst (snd (new_puts demo_init s' ! 1)) = \<lparr>offset = 4, n_bytes = 16\<rparr>
         \<and> new_math demo_init s' = [(1, 1, [''x/base'', ''2/sup''])]"
    by blast
  moreover from math_slice_takes_one_position [of ?m demo_extern demo_init ?a ?b, THEN conjunct1] 2
  have "cur_position (snd (projr (indexer_handle_slice demo_extern ?m demo_init)))
        = cur_position demo_init + 1"
    and "added_terms (term_index (snd (projr (indexer_handle_slice demo_extern ?m demo_init))))
        = added_terms (term_index demo_init) @ [''math_exp'']"
    by blast+
  then have "cur_position (snd (projr (indexer_handle_slice demo_extern ?m demo_init))) = 1"
    and "added_terms (term_index (snd (projr (indexer_handle_slice demo_extern ?m demo_init))))
        = [''math_exp'']"
    by (simp_all only: i) simp_all
  ultimately show ?thesis
    using 1 2 3 by blast
qed

subsection \<open>C4: a TeX expression that does not parse\<close>

text \<open>
  C4. When \<^verbatim>\<open>tex_parse\<close> reports a failure, \<^verbatim>\<open>index_tex\<close> prints the failing input and the
  message of the parser, adds nothing to the math index (and nothing to the term index),
  and still issues the offset put for (\<^verbatim>\<open>prev_docID + 1\<close>, current position) and increments
  the position counter. The offset store and the counter end as they do for any other
  answer of the parser, a success included.
\<close>

theorem tex_parse_failure_takes_position:
  assumes "code (tex_parse E tex 0 False) \<noteq> PARSER_RETCODE_SUCC"
  shows "math_index (index_tex E tex ofs n s) = math_index s
   \<and> term_index (index_tex E tex ofs n s) = term_index s
   \<and> stdout (index_tex E tex ofs n s)
       = stdout s @ ''parsing TeX (`'' @ tex @ [CHR 0x27] @ '') error: ''
         @ msg (tex_parse E tex 0 False) @ [NL]
         @ (if keyval_db_put E (offset_db s) \<lparr>docID = prev_docID s + 1, pos = cur_position s\<rparr>
                 \<lparr>offset = ofs, n_bytes = of_nat n\<rparr>
            then ''put error: '' @ keyval_db_last_err E (offset_db (index_tex E tex ofs n s)) @ [NL]
            else [])
   \<and> put_calls (offset_db (index_tex E tex ofs n s))
       = put_calls (offset_db s)
         @ [(\<lparr>docID = prev_docID s + 1, pos = cur_position s\<rparr>, \<lparr>offset = ofs, n_bytes = of_nat n\<rparr>,
             keyval_db_put E (offset_db s) \<lparr>docID = prev_docID s + 1, pos = cur_position s\<rparr>
               \<lparr>offset = ofs, n_bytes = of_nat n\<rparr>)]
   \<and> cur_position (index_tex E tex ofs n s) = cur_position s + 1
   \<and> (\<forall>parse. offset_db (index_tex (E\<lparr>tex_parse := parse\<rparr>) tex ofs n s)
                = offset_db (index_tex E tex ofs n s)
              \<and> cur_position (index_tex (E\<lparr>tex_parse := parse\<rparr>) tex ofs n s)
                = cur_position (index_tex E tex ofs n s))"
proof -
  have 1: "math_index (index_tex E tex ofs n s) = math_index s"
    using assms by (simp add: index_tex_math)
  have 2: "stdout (index_tex E tex ofs n s)
       = stdout s @ ''parsing TeX (`'' @ tex @ [CHR 0x27] @ '') error: ''
         @ msg (tex_parse E tex 0 False) @ [NL]
         @ (if keyval_db_put E (offset_db s) \<lparr>docID = prev_docID s + 1, pos = cur_position s\<rparr>
                 \<lparr>offset = ofs, n_bytes = of_nat n\<rparr>
            then ''put error: '' @ keyval_db_last_err E (offset_db (index_tex E tex ofs n s)) @ [NL]
            else [])"
    using assms by (simp add: index_tex_def save_offset_def Let_def)
  have 3: "put_calls (offset_db (index_tex E tex ofs n s))
       = put_calls (offset_db s)
         @ [(\<lparr>docID = prev_docID s + 1, pos = cur_position s\<rparr>, \<lparr>offset = ofs, n_bytes = of_nat n\<rparr>,
             keyval_db_put E (offset_db s) \<lparr>docID = prev_docID s + 1, pos = cur_position s\<rparr>
               \<lparr>offset = ofs, n_bytes = of_nat n\<rparr>)]"
    by (simp add: index_tex_db put_calls_append)
  have 4: "offset_db (index_tex (E\<lparr>tex_parse := parse\<rparr>) tex ofs n s)
         = offset_db (index_tex E tex ofs n s)" for parse
    by (simp add: index_tex_db)
  from 1 2 3 4 show ?thesis
    by (simp only: index_tex_frame) blast
qed

theorem tex_parse_failure_takes_position_witness:
  "code (tex_parse demo_extern ''x^'' 0 False) \<noteq> PARSER_RETCODE_SUCC
   \<and> math_index (index_tex demo_extern ''x^'' 4 15 demo_init) = []
   \<and> stdout (index_tex demo_extern ''x^'' 4 15 demo_init)
       = ''parsing TeX (`x^'' @ [CHR 0x27] @ '') error: syntax error'' @ [NL]
   \<and> put_calls (offset_db (index_tex demo_extern ''x^'' 4 15 demo_init))
       = [(\<lparr>docID = 1, pos = 0\<rparr>, \<lparr>offset = 4, n_bytes = 15\<rparr>, False)]
   \<and> cur_position (index_tex demo_extern ''x^'' 4 15 demo_init) = 1"
proof -
  have h: "code (tex_parse demo_extern ''x^'' 0 False) \<noteq> PARSER_RETCODE_SUCC"
    by (simp add: demo_extern_def demo_tex_parse_def)
  from tex_parse_failure_takes_position [OF h, of 4 15 demo_init] h show ?thesis
    by (simp add: demo_extern_def demo_tex_parse_def demo_init_def)
qed

subsection \<open>C5: a rejected envelope\<close>

text \<open>
  C5. When the envelope is at least as large as \<^verbatim>\<open>MAX_CORPUS_FILE_SZ\<close> (so also when it
  exceeds it), or the \<^verbatim>\<open>url\<close> string or the \<^verbatim>\<open>text\<close> string cannot be taken from what
  \<^verbatim>\<open>get_json_val\<close> is given, \<^verbatim>\<open>indexer_index_json\<close> returns without a write to either blob
  index, to the term index, to the math index or to the offset store, and with
  \<^verbatim>\<open>prev_docID\<close> and the position counter as they were.
\<close>

theorem rejected_envelope_changes_no_store:
  assumes "MAX_CORPUS_FILE_SZ E \<le> length fh
         \<or> json_field E (envelope_seen E fh s) ''url'' = None
         \<or> json_field E (envelope_seen E fh s) ''text'' = None"
  shows "\<exists>s'. indexer_index_json E fh lexer s = Inr s'
     \<and> blob_index_url s' = blob_index_url s \<and> blob_index_txt s' = blob_index_txt s
     \<and> term_index s' = term_index s \<and> math_index s' = math_index s
     \<and> offset_db s' = offset_db s \<and> released s' = released s
     \<and> prev_docID s' = prev_docID s \<and> cur_position s' = cur_position s
     \<and> stdout s' = stdout s"
proof -
  from indexer_index_json_rejected [OF assms] obtain b u t e
    where "indexer_index_json E fh lexer s
      = Inr (s\<lparr>doc_json := b, url_field := u, txt_field := t, stderr := e\<rparr>)"
    by blast
  then show ?thesis by simp
qed

theorem rejected_envelope_changes_no_store_witness:
  "MAX_CORPUS_FILE_SZ demo_extern \<le> length oversized_envelope
   \<and> json_field demo_extern (envelope_seen demo_extern ''junk'' demo_init) ''url'' = None
   \<and> json_field demo_extern (envelope_seen demo_extern url_only_envelope demo_init) ''url''
       = Some ''http://y''
   \<and> json_field demo_extern (envelope_seen demo_extern url_only_envelope demo_init) ''text'' = None
   \<and> (\<exists>s'. indexer_index_json demo_extern oversized_envelope demo_lexer demo_init = Inr s'
         \<and> blob_index_url s' = [] \<and> blob_index_txt s' = [] \<and> term_index s' = []
         \<and> math_index s' = [] \<and> offset_db s' = [] \<and> prev_docID s' = 0 \<and> cur_position s' = 0)
   \<and> (\<exists>s'. indexer_index_json demo_extern ''junk'' demo_lexer demo_init = Inr s'
         \<and> blob_index_url s' = [] \<and> blob_index_txt s' = [] \<and> term_index s' = []
         \<and> math_index s' = [] \<and> offset_db s' = [] \<and> prev_docID s' = 0 \<and> cur_position s' = 0)
   \<and> (\<exists>s'. indexer_index_json demo_extern url_only_envelope demo_lexer demo_init = Inr s'
         \<and> blob_index_url s' = [] \<and> blob_index_txt s' = [] \<and> term_index s' = []
         \<and> math_index s' = [] \<and> offset_db s' = [] \<and> prev_docID s' = 0 \<and> cur_position s' = 0)"
proof -
  have 1: "MAX_CORPUS_FILE_SZ demo_extern \<le> length oversized_envelope"
    by (simp add: demo_extern_def oversized_envelope_def)
  have 2: "json_field demo_extern (envelope_seen demo_extern ''junk'' demo_init) ''url'' = None"
    by (simp add: demo_defs eval_defs)
  have 3: "json_field demo_extern (envelope_seen demo_extern url_only_envelope demo_init) ''url''
       = Some ''http://y''"
    by (simp add: demo_defs eval_defs)
  have 4: "json_field demo_extern (envelope_seen demo_extern url_only_envelope demo_init) ''text'' = None"
    by (simp add: demo_defs eval_defs)
  have i: "blob_index_url demo_init = []" "blob_index_txt demo_init = []" "term_index demo_init = []"
    "math_index demo_init = []" "offset_db demo_init = []" "prev_docID demo_init = 0"
    "cur_position demo_init = 0"
    by (simp_all add: demo_init_def)
  from rejected_envelope_changes_no_store [where E = demo_extern and fh = oversized_envelope
      and s = demo_init and lexer = demo_lexer] 1
  have a: "\<exists>s'. indexer_index_json demo_extern oversized_envelope demo_lexer demo_init = Inr s'
         \<and> blob_index_url s' = [] \<and> blob_index_txt s' = [] \<and> term_index s' = []
         \<and> math_index s' = [] \<and> offset_db s' = [] \<and> prev_docID s' = 0 \<and> cur_position s' = 0"
    unfolding i by blast
  from rejected_envelope_changes_no_store [where E = demo_extern and fh = "''junk''"
      and s = demo_init and lexer = demo_lexer] 2
  have b: "\<exists>s'. indexer_index_json demo_extern ''junk'' demo_lexer demo_init = Inr s'
         \<and> blob_index_url s' = [] \<and> blob_index_txt s' = [] \<and> term_index s' = []
         \<and> math_index s' = [] \<and> offset_db s' = [] \<and> prev_docID s' = 0 \<and> cur_position s' = 0"
    unfolding i by blast
  from rejected_envelope_changes_no_store [where E = demo_extern and fh = url_only_envelope
      and s = demo_init and lexer = demo_lexer] 4
  have c: "\<exists>s'. indexer_index_json demo_extern url_only_envelope demo_lexer demo_init = Inr s'
         \<and> blob_index_url s' = [] \<and> blob_index_txt s' = [] \<and> term_index s' = []
         \<and> math_index s' = [] \<and> offset_db s' = [] \<and> prev_docID s' = 0 \<and> cur_position s' = 0"
    unfolding i by blast
  from 1 2 3 4 a b c show ?thesis by blast
qed

subsection \<open>C6: every store is keyed by the upcoming docID\<close>

text \<open>
  C6. For a document that is accepted and finalized, the URL blob is written as it is and
  the text blob compressed, both under \<^verbatim>\<open>prev_docID + 1\<close>; every offset put and every math
  index entry of the document carries \<^verbatim>\<open>prev_docID + 1\<close> as its docID; and the docID that
  the term index returns at finalization, which becomes \<^verbatim>\<open>prev_docID\<close>, is that same value.
\<close>

theorem stores_keyed_by_upcoming_docID:
  assumes "length fh < MAX_CORPUS_FILE_SZ E"
    and "json_field E (envelope_seen E fh s) ''url'' = Some u"
    and "json_field E (envelope_seen E fh s) ''text'' = Some t"
    and "indexer_index_json E fh lexer s = Inr s'"
  shows "blob_index_url s' = blob_index_url s @ [(prev_docID s + 1, u)]
     \<and> blob_index_txt s' = blob_index_txt s @ [(prev_docID s + 1, codec_compress E t (length t))]
     \<and> put_calls (offset_db s') = put_calls (offset_db s) @ new_puts s s'
     \<and> (\<forall>p \<in> set (new_puts s s'). docID (fst p) = prev_docID s + 1)
     \<and> math_index s' = math_index s @ new_math s s'
     \<and> (\<forall>m \<in> set (new_math s s'). fst m = prev_docID s + 1)
     \<and> finalized s s' = [prev_docID s + 1]
     \<and> prev_docID s' = prev_docID s + 1"
proof -
  note d = accepted_document [OF assms]
  from d(1) obtain ps ts ms where p: "put_calls (offset_db s') = put_calls (offset_db s) @ ps"
    and k: "map fst ps = next_keys s (length ps)"
    and m: "math_index s' = math_index s @ ms" "\<forall>m \<in> set ms. fst m = prev_docID s + 1"
    by blast
  have np: "new_puts s s' = ps" by (simp add: new_puts_def p)
  have nm: "new_math s s' = ms" by (simp add: new_math_def m)
  have "\<forall>key \<in> set (map fst ps). docID key = prev_docID s + 1"
    unfolding k by (simp add: next_keys_def)
  then have keys: "\<forall>p \<in> set ps. docID (fst p) = prev_docID s + 1"
    by simp
  have fin: "finalized s s' = [prev_docID s + 1]"
    by (simp add: finalized_def d(2))
  show ?thesis
    unfolding np nm using d(3,4,5) p keys m fin by blast
qed

theorem stores_keyed_by_upcoming_docID_witness:
  "length demo_envelope < MAX_CORPUS_FILE_SZ demo_extern
   \<and> json_field demo_extern (envelope_seen demo_extern demo_envelope demo_init) ''url'' = Some ''http://x''
   \<and> json_field demo_extern (envelope_seen demo_extern demo_envelope demo_init) ''text'' = Some demo_text
   \<and> indexer_index_json demo_extern demo_envelope demo_lexer demo_init
       = Inr (projr (indexer_index_json demo_extern demo_envelope demo_lexer demo_init))
   \<and> blob_index_url (projr (indexer_index_json demo_extern demo_envelope demo_lexer demo_init))
       = [(1, ''http://x'')]
   \<and> blob_index_txt (projr (indexer_index_json demo_extern demo_envelope demo_lexer demo_init))
       = [(1, ''gz:The <math>x^2</math> is positive'')]
   \<and> finalized demo_init (projr (indexer_index_json demo_extern demo_envelope demo_lexer demo_init)) = [1]
   \<and> prev_docID (projr (indexer_index_json demo_extern demo_envelope demo_lexer demo_init)) = 1"
proof -
  have 1: "length demo_envelope < MAX_CORPUS_FILE_SZ demo_extern"
    by (simp add: demo_defs)
  have 2: "json_field demo_extern (envelope_seen demo_extern demo_envelope demo_init) ''url''
      = Some ''http://x''"
    by (simp add: demo_defs eval_defs)
  have 3: "json_field demo_extern (envelope_seen demo_extern demo_envelope demo_init) ''text''
      = Some demo_text"
    by (simp add: demo_defs eval_defs)
  have 4: "indexer_index_json demo_extern demo_envelope demo_lexer demo_init
       = Inr (projr (indexer_index_json demo_extern demo_envelope demo_lexer demo_init))"
    by (simp add: demo_defs eval_defs)
  from stores_keyed_by_upcoming_docID [OF 1 2 3 4] 1 2 3 4 show ?thesis
    by (simp add: demo_init_def demo_extern_def demo_text_def)
qed

subsection \<open>C7: the docIDs of a run\<close>

text \<open>
  C7, as amended. Over a run of \<^verbatim>\<open>indexer_index_json\<close> calls that all return, the docIDs
  returned by finalization are consecutive: the first is the initial \<^verbatim>\<open>prev_docID\<close> plus 1
  and each later one is its predecessor plus 1, in 32-bit arithmetic; there is at most one
  for each call, and \<^verbatim>\<open>prev_docID\<close> ends at the last of them. The sequence is strictly
  increasing as long as the docID does not wrap around.
\<close>

theorem docIDs_consecutive:
  assumes "index_corpus E fhs lexer s = Inr s'"
  shows "doc_end_ids (term_index s') = doc_end_ids (term_index s) @ finalized s s'
    \<and> finalized s s' = map (\<lambda>i. prev_docID s + 1 + of_nat i) [0..<length (finalized s s')]
    \<and> length (finalized s s') \<le> length fhs
    \<and> prev_docID s' = prev_docID s + of_nat (length (finalized s s'))
    \<and> (unat (prev_docID s) + length (finalized s s') < 2 ^ 32 \<longrightarrow>
         sorted_wrt (<) (finalized s s'))"
proof -
  from index_corpus_ids [OF assms] obtain n where n: "n \<le> length fhs"
    and ids: "doc_end_ids (term_index s')
       = doc_end_ids (term_index s) @ map (\<lambda>i. prev_docID s + 1 + of_nat i) [0..<n]"
    and p: "prev_docID s' = prev_docID s + of_nat n"
    by blast
  have f: "finalized s s' = map (\<lambda>i. prev_docID s + 1 + of_nat i) [0..<n]"
    by (simp add: finalized_def ids)
  then have l: "length (finalized s s') = n" by simp
  have "sorted_wrt (<) (finalized s s')" if "unat (prev_docID s) + n < 2 ^ 32"
    unfolding f using that by (rule consecutive_sorted)
  with n ids p f show ?thesis
    unfolding l by simp
qed

theorem docIDs_consecutive_witness:
  "index_corpus demo_extern [demo_envelope, ''junk'', demo_envelope] demo_lexer demo_init
     = Inr (projr (index_corpus demo_extern [demo_envelope, ''junk'', demo_envelope] demo_lexer demo_init))
   \<and> finalized demo_init
        (projr (index_corpus demo_extern [demo_envelope, ''junk'', demo_envelope] demo_lexer demo_init))
       = [1, 2]
   \<and> prev_docID
        (projr (index_corpus demo_extern [demo_envelope, ''junk'', demo_envelope] demo_lexer demo_init))
       = 2
   \<and> sorted_wrt (<) (finalized demo_init
        (projr (index_corpus demo_extern [demo_envelope, ''junk'', demo_envelope] demo_lexer demo_init)))"
proof -
  let ?s' = "projr (index_corpus demo_extern [demo_envelope, ''junk'', demo_envelope] demo_lexer demo_init)"
  have r: "index_corpus demo_extern [demo_envelope, ''junk'', demo_envelope] demo_lexer demo_init
     = Inr ?s'"
    by (simp add: demo_defs eval_defs)
  have f: "finalized demo_init ?s' = [1, 2]"
    by (simp add: demo_defs eval_defs)
  have b: "unat (prev_docID demo_init) + length (finalized demo_init ?s') < 2 ^ 32"
    unfolding f by (simp add: demo_init_def)
  from docIDs_consecutive [OF r] b
  have "prev_docID ?s' = prev_docID demo_init + of_nat (length (finalized demo_init ?s'))"
    and "sorted_wrt (<) (finalized demo_init ?s')"
    by blast+
  then have "prev_docID ?s' = 2" "sorted_wrt (<) (finalized demo_init ?s')"
    unfolding f by (simp_all add: demo_init_def)
  with r f show ?thesis by blast
qed

text \<open>
  The claim as first stated has the docIDs strictly increasing in every run. From
  \<^verbatim>\<open>prev_docID = 0xFFFFFFFE\<close> two documents are finalized with the docIDs \<^verbatim>\<open>0xFFFFFFFF\<close> and
  0: \<^verbatim>\<open>prev_docID + 1\<close> wraps around and the assertion holds.
\<close>

theorem docIDs_wrap_around:
  "index_corpus wrap_extern [demo_envelope, demo_envelope] demo_lexer wrap_init
     = Inr (projr (index_corpus wrap_extern [demo_envelope, demo_envelope] demo_lexer wrap_init))
   \<and> finalized wrap_init
        (projr (index_corpus wrap_extern [demo_envelope, demo_envelope] demo_lexer wrap_init))
       = [0xFFFFFFFF, 0]
   \<and> \<not> sorted_wrt (<) (finalized wrap_init
        (projr (index_corpus wrap_extern [demo_envelope, demo_envelope] demo_lexer wrap_init)))"
proof -
  let ?s' = "projr (index_corpus wrap_extern [demo_envelope, demo_envelope] demo_lexer wrap_init)"
  have r: "index_corpus wrap_extern [demo_envelope, demo_envelope] demo_lexer wrap_init = Inr ?s'"
    by (simp add: demo_defs eval_defs)
  have f: "finalized wrap_init ?s' = [0xFFFFFFFF, 0]"
    by (simp add: demo_defs eval_defs)
  have "\<not> sorted_wrt (<) (finalized wrap_init ?s')"
    unfolding f by simp
  with r f show ?thesis by blast
qed

subsection \<open>C8: releasing the subpaths\<close>

text \<open>
  C8, as amended. After a call of \<^verbatim>\<open>tex_parse\<close> that reports success, \<^verbatim>\<open>index_tex\<close> first
  calls \<^verbatim>\<open>math_index_add_tex\<close> with the subpaths of the result and then, whatever that call
  returned, \<^verbatim>\<open>subpaths_release\<close> on the same subpaths: these are the next two calls on
  subpaths, in this order. After a call that reports a failure neither call is made. So
  over the slices of a document the calls on subpaths come in pairs, every subpaths handed
  to the math index is released right after, and nothing else is released.
\<close>

theorem subpaths_released_on_success_only:
  "subpaths_calls (index_tex E tex ofs n s)
     = (if code (tex_parse E tex 0 False) = PARSER_RETCODE_SUCC
        then subpaths_calls s
          @ [Sp_math_index_add_tex (prev_docID s + 1) (cur_position s)
               (subpaths (tex_parse E tex 0 False))
               (math_index_add_tex E (math_index s) (prev_docID s + 1) (cur_position s)
                  (subpaths (tex_parse E tex 0 False))),
             Sp_release (subpaths (tex_parse E tex 0 False))]
        else subpaths_calls s)
   \<and> released (index_tex E tex ofs n s)
     = (if code (tex_parse E tex 0 False) = PARSER_RETCODE_SUCC
        then released s @ [subpaths (tex_parse E tex 0 False)]
        else released s)
   \<and> math_index (index_tex E tex ofs n s)
     = (if code (tex_parse E tex 0 False) = PARSER_RETCODE_SUCC
        then math_index s @ [(prev_docID s + 1, cur_position s, subpaths (tex_parse E tex 0 False))]
        else math_index s)
   \<and> (run_lexer E sls s = Inr s' \<longrightarrow>
        subpaths_calls s' = subpaths_calls s @ new_subpaths_calls s s'
      \<and> paired (new_subpaths_calls s s')
      \<and> math_index s' = math_index s @ sp_adds (new_subpaths_calls s s')
      \<and> released s' = released s @ sp_releases (new_subpaths_calls s s'))"
proof -
  have r: "subpaths_calls s' = subpaths_calls s @ new_subpaths_calls s s'
      \<and> paired (new_subpaths_calls s s')
      \<and> math_index s' = math_index s @ sp_adds (new_subpaths_calls s s')
      \<and> released s' = released s @ sp_releases (new_subpaths_calls s s')"
    if "run_lexer E sls s = Inr s'"
  proof -
    from handed_over_run_lexer [OF that] obtain cs where h: "handed_over s s' cs" by blast
    then have "new_subpaths_calls s s' = cs"
      by (simp add: handed_over_def new_subpaths_calls_def)
    with h show ?thesis by (simp add: handed_over_def)
  qed
  from r subpaths_calls_index_tex [of E tex ofs n s] index_tex_math [of E tex ofs n s]
  show ?thesis by blast
qed

theorem subpaths_released_on_success_only_witness:
  "subpaths_calls (index_tex demo_extern ''x^2'' 4 16 demo_init)
     = [Sp_math_index_add_tex 1 0 [''x/base'', ''2/sup''] 0, Sp_release [''x/base'', ''2/sup'']]
   \<and> subpaths_calls (index_tex math_refusing_extern ''x^2'' 4 16 demo_init)
     = [Sp_math_index_add_tex 1 0 [''x/base'', ''2/sup''] (- 1), Sp_release [''x/base'', ''2/sup'']]
   \<and> released (index_tex demo_extern ''x^2'' 4 16 demo_init) = [[''x/base'', ''2/sup'']]
   \<and> math_index (index_tex demo_extern ''x^2'' 4 16 demo_init) = [(1, 0, [''x/base'', ''2/sup''])]
   \<and> run_lexer demo_extern (demo_lexer demo_text) demo_init = Inr (demo_lexed demo_extern)
   \<and> paired (new_subpaths_calls demo_init (demo_lexed demo_extern))
   \<and> math_index (demo_lexed demo_extern)
       = sp_adds (new_subpaths_calls demo_init (demo_lexed demo_extern))
   \<and> released (demo_lexed demo_extern)
       = sp_releases (new_subpaths_calls demo_init (demo_lexed demo_extern))"
proof -
  have p: "code (tex_parse demo_extern ''x^2'' 0 False) = PARSER_RETCODE_SUCC"
    "subpaths (tex_parse demo_extern ''x^2'' 0 False) = [''x/base'', ''2/sup'']"
    "code (tex_parse math_refusing_extern ''x^2'' 0 False) = PARSER_RETCODE_SUCC"
    "subpaths (tex_parse math_refusing_extern ''x^2'' 0 False) = [''x/base'', ''2/sup'']"
    by (simp_all add: math_refusing_extern_def demo_extern_def demo_tex_parse_def)
  have i: "subpaths_calls demo_init = []" "released demo_init = []" "math_index demo_init = []"
    "prev_docID demo_init = 0" "cur_position demo_init = 0"
    by (simp_all add: demo_init_def)
  have m: "math_index_add_tex demo_extern [] 1 0 [''x/base'', ''2/sup''] = 0"
    "math_index_add_tex math_refusing_extern [] 1 0 [''x/base'', ''2/sup''] = - 1"
    by (simp_all add: math_refusing_extern_def demo_extern_def)
  have r: "run_lexer demo_extern (demo_lexer demo_text) demo_init = Inr (demo_lexed demo_extern)"
    by (simp add: demo_lexed_def demo_defs eval_defs)
  note a = subpaths_released_on_success_only [of demo_extern "''x^2''" 4 16 demo_init
      "demo_lexer demo_text" "demo_lexed demo_extern"]
  note b = subpaths_released_on_success_only [of math_refusing_extern "''x^2''" 4 16 demo_init]
  from a have 1: "subpaths_calls (index_tex demo_extern ''x^2'' 4 16 demo_init)
     = [Sp_math_index_add_tex 1 0 [''x/base'', ''2/sup''] 0, Sp_release [''x/base'', ''2/sup'']]"
    and 3: "released (index_tex demo_extern ''x^2'' 4 16 demo_init) = [[''x/base'', ''2/sup'']]"
    and 4: "math_index (index_tex demo_extern ''x^2'' 4 16 demo_init) = [(1, 0, [''x/base'', ''2/sup''])]"
    by (simp_all add: p i m)
  from b have 2: "subpaths_calls (index_tex math_refusing_extern ''x^2'' 4 16 demo_init)
     = [Sp_math_index_add_tex 1 0 [''x/base'', ''2/sup''] (- 1), Sp_release [''x/base'', ''2/sup'']]"
    by (simp add: p i m)
  from a r have 5: "paired (new_subpaths_calls demo_init (demo_lexed demo_extern))"
    and 6: "math_index (demo_lexed demo_extern)
       = math_index demo_init @ sp_adds (new_subpaths_calls demo_init (demo_lexed demo_extern))"
    and 7: "released (demo_lexed demo_extern)
       = released demo_init @ sp_releases (new_subpaths_calls demo_init (demo_lexed demo_extern))"
    by blast+
  from 6 7 have 8: "math_index (demo_lexed demo_extern)
       = sp_adds (new_subpaths_calls demo_init (demo_lexed demo_extern))"
    "released (demo_lexed demo_extern)
       = sp_releases (new_subpaths_calls demo_init (demo_lexed demo_extern))"
    by (simp_all only: i append_Nil)
  from 1 2 3 4 r 5 8 show ?thesis by blast
qed

text \<open>
  The claim as first stated has the subpaths released after a failed parse too. For the
  expression \<^verbatim>\<open>x^\<close>, which the parser of the test environment rejects, no call of
  \<^verbatim>\<open>subpaths_release\<close> is made.
\<close>

theorem failed_parse_releases_nothing:
  "code (tex_parse demo_extern ''x^'' 0 False) = PARSER_RETCODE_ERR
   \<and> released (index_tex demo_extern ''x^'' 4 15 demo_init) = released demo_init
   \<and> subpaths_calls (index_tex demo_extern ''x^'' 4 15 demo_init) = subpaths_calls demo_init
   \<and> released (index_tex demo_extern ''x^'' 4 15 demo_init)
       \<noteq> released demo_init @ [subpaths (tex_parse demo_extern ''x^'' 0 False)]"
  by (simp add: demo_extern_def demo_tex_parse_def demo_init_def eval_defs)

subsection \<open>C9: an offset put that fails\<close>

text \<open>
  C9. When \<^verbatim>\<open>keyval_db_put\<close> fails, \<^verbatim>\<open>save_offset\<close> prints a diagnostic and returns true,
  and the run goes on: \<^verbatim>\<open>index_term\<close> has added the term to the term index and
  \<^verbatim>\<open>index_tex\<close> the expression, when it parses, to the math index, both increment the
  position counter, and no offset entry is created. The later tokens are not affected: the slices of a document
  give the same term index, math index and position counter as they give with an offset
  store in which no put fails.
\<close>

theorem offset_put_failure_is_recoverable:
  assumes "keyval_db_put E (offset_db s) \<lparr>docID = prev_docID s + 1, pos = cur_position s\<rparr>
             \<lparr>offset = ofs, n_bytes = of_nat n\<rparr>"
  shows "fst (save_offset E ofs (of_nat n) s)
   \<and> stdout (snd (save_offset E ofs (of_nat n) s))
       = stdout s @ ''put error: ''
         @ keyval_db_last_err E (offset_db (snd (save_offset E ofs (of_nat n) s))) @ [NL]
   \<and> term_index (index_term E t ofs n s) = term_index s @ [Ti_doc_add t]
   \<and> cur_position (index_term E t ofs n s) = cur_position s + 1
   \<and> offset_entries (offset_db (index_term E t ofs n s)) = offset_entries (offset_db s)
   \<and> math_index (index_tex E tex ofs n s)
       = (if code (tex_parse E tex 0 False) = PARSER_RETCODE_SUCC
          then math_index s @ [(prev_docID s + 1, cur_position s, subpaths (tex_parse E tex 0 False))]
          else math_index s)
   \<and> cur_position (index_tex E tex ofs n s) = cur_position s + 1
   \<and> offset_entries (offset_db (index_tex E tex ofs n s)) = offset_entries (offset_db s)
   \<and> (\<forall>sls s'. run_lexer E sls s = Inr s' \<longrightarrow>
         (\<exists>t'. run_lexer (E\<lparr>keyval_db_put := (\<lambda>log k v. False)\<rparr>) sls s = Inr t'
             \<and> term_index t' = term_index s' \<and> math_index t' = math_index s'
             \<and> cur_position t' = cur_position s'))"
proof -
  have 1: "fst (save_offset E ofs (of_nat n) s)"
    using assms by (simp add: save_offset_def Let_def)
  have 2: "stdout (snd (save_offset E ofs (of_nat n) s))
       = stdout s @ ''put error: ''
         @ keyval_db_last_err E (offset_db (snd (save_offset E ofs (of_nat n) s))) @ [NL]"
    using assms by (simp add: save_offset_def Let_def)
  have 3: "offset_entries (offset_db (index_term E t ofs n s)) = offset_entries (offset_db s)"
    using assms by (simp add: index_term_db offset_entries_def put_calls_append)
  have 4: "offset_entries (offset_db (index_tex E tex ofs n s)) = offset_entries (offset_db s)"
    using assms by (simp add: index_tex_db offset_entries_def put_calls_append)
  have 5: "\<exists>t'. run_lexer (E\<lparr>keyval_db_put := (\<lambda>log k v. False)\<rparr>) sls s = Inr t'
             \<and> term_index t' = term_index s' \<and> math_index t' = math_index s'
             \<and> cur_position t' = cur_position s'"
    if "run_lexer E sls s = Inr s'" for sls s'
  proof -
    have "same_index s s" by (simp add: same_index_def)
    from same_index_run_lexer [OF this that]
    show ?thesis by (auto simp: same_index_def)
  qed
  from 1 2 3 4 5 show ?thesis
    by (simp only: index_term_frame index_tex_frame index_tex_math) blast
qed

theorem offset_put_failure_is_recoverable_witness:
  "keyval_db_put failing_extern (offset_db demo_init)
     \<lparr>docID = prev_docID demo_init + 1, pos = cur_position demo_init\<rparr> \<lparr>offset = 0, n_bytes = 4\<rparr>
   \<and> fst (save_offset failing_extern 0 4 demo_init)
   \<and> stdout (snd (save_offset failing_extern 0 4 demo_init)) = ''put error: IO error'' @ [NL]
   \<and> added_terms (term_index (index_term failing_extern ''the '' 0 4 demo_init)) = [''the '']
   \<and> cur_position (index_term failing_extern ''the '' 0 4 demo_init) = 1
   \<and> offset_entries (offset_db (index_term failing_extern ''the '' 0 4 demo_init)) = []
   \<and> run_lexer failing_extern (demo_lexer demo_text) demo_init = Inr (demo_lexed failing_extern)
   \<and> (\<exists>t'. run_lexer (failing_extern\<lparr>keyval_db_put := (\<lambda>log k v. False)\<rparr>)
              (demo_lexer demo_text) demo_init = Inr t'
         \<and> term_index t' = term_index (demo_lexed failing_extern)
         \<and> math_index t' = math_index (demo_lexed failing_extern)
         \<and> cur_position t' = cur_position (demo_lexed failing_extern))"
proof -
  have h: "keyval_db_put failing_extern (offset_db demo_init)
     \<lparr>docID = prev_docID demo_init + 1, pos = cur_position demo_init\<rparr>
     \<lparr>offset = 0, n_bytes = of_nat 4\<rparr>"
    by (simp add: failing_extern_def demo_extern_def)
  from offset_put_failure_is_recoverable [OF h, where t = "''the ''"]
  have "fst (save_offset failing_extern 0 (of_nat 4) demo_init)"
    and "stdout (snd (save_offset failing_extern 0 (of_nat 4) demo_init))
       = stdout demo_init @ ''put error: ''
         @ keyval_db_last_err failing_extern
             (offset_db (snd (save_offset failing_extern 0 (of_nat 4) demo_init))) @ [NL]"
    and "term_index (index_term failing_extern ''the '' 0 4 demo_init)
       = term_index demo_init @ [Ti_doc_add ''the '']"
    and "cur_position (index_term failing_extern ''the '' 0 4 demo_init) = cur_position demo_init + 1"
    and "offset_entries (offset_db (index_term failing_extern ''the '' 0 4 demo_init))
       = offset_entries (offset_db demo_init)"
    by blast+
  then have token: "keyval_db_put failing_extern (offset_db demo_init)
       \<lparr>docID = prev_docID demo_init + 1, pos = cur_position demo_init\<rparr> \<lparr>offset = 0, n_bytes = 4\<rparr>
     \<and> fst (save_offset failing_extern 0 4 demo_init)
     \<and> stdout (snd (save_offset failing_extern 0 4 demo_init)) = ''put error: IO error'' @ [NL]
     \<and> added_terms (term_index (index_term failing_extern ''the '' 0 4 demo_init)) = [''the '']
     \<and> cur_position (index_term failing_extern ''the '' 0 4 demo_init) = 1
     \<and> offset_entries (offset_db (index_term failing_extern ''the '' 0 4 demo_init)) = []"
    using h by (simp add: failing_extern_def demo_extern_def demo_init_def offset_entries_def)
  have r: "run_lexer failing_extern (demo_lexer demo_text) demo_init = Inr (demo_lexed failing_extern)"
    by (simp add: demo_lexed_def demo_defs eval_defs)
  from offset_put_failure_is_recoverable [OF h, where t = "''the ''"] r
  have "\<exists>t'. run_lexer (failing_extern\<lparr>keyval_db_put := (\<lambda>log k v. False)\<rparr>)
              (demo_lexer demo_text) demo_init = Inr t'
         \<and> term_index t' = term_index (demo_lexed failing_extern)
         \<and> math_index t' = math_index (demo_lexed failing_extern)
         \<and> cur_position t' = cur_position (demo_lexed failing_extern)"
    by blast
  with token r show ?thesis by blast
qed

subsection \<open>C10: a text slice without segments\<close>

text \<open>
  C10. When \<^verbatim>\<open>indexer_handle_slice\<close> is given a plain-text slice that the segmenter returns
  with no segment, it writes nothing to the term index and no offset entry, and it leaves
  the position counter and \<^verbatim>\<open>prev_docID\<close> as they are: the whole state is unchanged, and
  the only effect is that the string of the slice is lower-cased in place. Such a slice
  takes no position.
\<close>

theorem text_slice_without_segments:
  assumes "sl_type sl = LEX_SLICE_TYPE_TEXT"
    and "text_segment E (eng_to_lower_case E (mb_str sl) (strlen (mb_str sl))) = []"
  shows "indexer_handle_slice E sl s =
     Inr (sl\<lparr>mb_str := eng_to_lower_case E (mb_str sl) (strlen (mb_str sl))\<rparr>, s)"
  using assms by (simp add: indexer_handle_slice_def Let_def)

theorem text_slice_without_segments_witness:
  "sl_type blank_slice = LEX_SLICE_TYPE_TEXT
   \<and> text_segment demo_extern
        (eng_to_lower_case demo_extern (mb_str blank_slice) (strlen (mb_str blank_slice))) = []
   \<and> indexer_handle_slice demo_extern blank_slice demo_init =
       Inr (blank_slice\<lparr>mb_str := eng_to_lower_case demo_extern (mb_str blank_slice)
              (strlen (mb_str blank_slice))\<rparr>, demo_init)"
proof -
  have t: "sl_type blank_slice = LEX_SLICE_TYPE_TEXT"
    by (simp add: blank_slice_def)
  have e: "text_segment demo_extern
      (eng_to_lower_case demo_extern (mb_str blank_slice) (strlen (mb_str blank_slice))) = []"
    by (simp add: demo_defs eval_defs)
  show ?thesis
    using t e text_slice_without_segments [OF t e, of demo_init] by simp
qed

end
